theory Spec2Isabelle
  imports Complex_Main "HOL-Library.Word"
begin

section \<open>Alert node (alert.go)\<close>

subsection \<open>Errors and alert levels\<close>

text \<open>
  A Go function that fails either returns a non-nil \<open>error\<close> or panics; both are
  values of the model. \<open>Inl\<close> carries the failure, \<open>Inr\<close> the result.
\<close>

datatype error = Panic string | Err string

text \<open>
  \<open>type AlertLevel int\<close> with the four constants declared by \<open>iota\<close>. The
  type is the integers, as in the source, so that \<open>AlertLevel(l)\<close> of a slice index
  and the comparison \<open>l > NoAlert\<close> are what they are in Go.
\<close>

type_synonym AlertLevel = int

definition NoAlert :: AlertLevel where "NoAlert = 0"
definition InfoAlert :: AlertLevel where "InfoAlert = 1"
definition WarnAlert :: AlertLevel where "WarnAlert = 2"
definition CritAlert :: AlertLevel where "CritAlert = 3"

lemmas AlertLevel_defs = NoAlert_def InfoAlert_def WarnAlert_def CritAlert_def

text \<open>\<open>func (l AlertLevel) String() string\<close>; the default branch panics.\<close>

definition AlertLevel_String :: "AlertLevel \<Rightarrow> error + string" where
  "AlertLevel_String l =
     (if l = NoAlert then Inr ''noalert''
      else if l = InfoAlert then Inr ''INFO''
      else if l = WarnAlert then Inr ''WARNING''
      else if l = CritAlert then Inr ''CRITICAL''
      else Inl (Panic ''unknown AlertLevel''))"

text \<open>\<open>MarshalText\<close> is the bytes of \<open>String\<close>.\<close>

definition MarshalText :: "AlertLevel \<Rightarrow> error + string" where
  "MarshalText l = AlertLevel_String l"

subsection \<open>Data\<close>

text \<open>
  \<open>models.Point\<close>, \<open>models.TimeFields\<close> and \<open>models.Batch\<close>, with the fields
  \<open>runAlert\<close> reads. The field and tag maps are only handed on to the predicate
  evaluator and to the handlers, so their types are parameters (\<open>'f\<close>, \<open>'t\<close>).
\<close>

record ('f, 't) Point =
  Point_Name :: string
  Point_Group :: string
  Point_Tags :: 't
  Point_Time :: int
  Point_Fields :: 'f

record 'f TimeFields =
  TF_Time :: int
  TF_Fields :: 'f

record ('f, 't) Batch =
  Batch_Name :: string
  Batch_Group :: string
  Batch_Tags :: 't
  Batch_Points :: "'f TimeFields list"

text \<open>
  \<open>influxql.Result\<close> with its \<open>Series\<close>; the rows are made by
  \<open>models.BatchToRow\<close>, which is outside this package and is a parameter
  of the model (\<open>'row\<close> is its result type).
\<close>

record 'row Result =
  Series :: "'row list"

record 'row AlertData =
  Level :: AlertLevel
  Data :: "'row Result"

text \<open>
  The two handlers a node can have. Calling one posts or mails the JSON of the alert
  data; the model records the call.
\<close>

datatype AlertHandler = handlePost | handleEmail

text \<open>The configuration \<open>pipeline.AlertNode\<close>, with the fields this file reads.\<close>

record pipeline_AlertNode =
  Post :: string
  From :: string
  ToList :: "string list"
  Subject :: string
  Info :: string
  Warn :: string
  Crit :: string
  UseFlapping :: bool
  History :: int
  FlapLow :: real
  FlapHigh :: real

text \<open>
  \<open>type AlertNode struct\<close>. The field \<open>a\<close> of the source is \<open>conf\<close> here;
  \<open>logger\<close> holds the lines printed so far. A compiled predicate
  (\<open>*expr.StatefulExpr\<close>) has a state of its own, of type \<open>'se\<close>; a nil entry of
  \<open>levels\<close> is \<open>None\<close>. The thresholds are finite \<open>float64\<close> values, held
  as the numbers they denote; the flap score is computed in \<open>float64\<close> arithmetic
  (section Flap detection).
\<close>

record 'se AlertNode =
  conf :: pipeline_AlertNode
  handlers :: "AlertHandler list"
  levels :: "'se option list"
  history :: "AlertLevel list"
  hIdx :: int
  flapping :: bool
  logger :: "string list"

subsection \<open>Construction\<close>

definition defaultFlapHistory :: int where "defaultFlapHistory = 21"
definition weightDiff :: real where "weightDiff = 1.5"
definition maxWeight :: real where "maxWeight = 1.2"

text \<open>
  One of the three blocks "Parse level expressions": an empty predicate string leaves
  the slot nil, a parse error aborts the construction. \<open>ParseForType\<close> (package
  \<open>expr\<close>) is a parameter; it returns the compiled stateful expression or the error.
\<close>

definition parseLevel ::
  "(string \<Rightarrow> error + 'se) \<Rightarrow> string \<Rightarrow> AlertLevel \<Rightarrow> 'se option list \<Rightarrow> error + 'se option list" where
  "parseLevel ParseForType src l lvls =
     (if src \<noteq> [] then
        (case ParseForType src of
           Inl e \<Rightarrow> Inl e
         | Inr se \<Rightarrow> Inr (lvls[nat l := Some se]))
      else Inr lvls)"

definition newAlertNode ::
  "(string \<Rightarrow> error + 'se) \<Rightarrow> pipeline_AlertNode \<Rightarrow> error + 'se AlertNode" where
  "newAlertNode ParseForType n =
     (let hs0 = [];
          hs1 = (if Post n \<noteq> [] then hs0 @ [handlePost] else hs0);
          hs2 = (if From n \<noteq> [] \<and> length (ToList n) \<noteq> 0 then hs1 @ [handleEmail] else hs1);
          lvls0 = replicate (nat (CritAlert + 1)) None
      in case parseLevel ParseForType (Info n) InfoAlert lvls0 of
           Inl e \<Rightarrow> Inl e
         | Inr lvls1 \<Rightarrow>
      (case parseLevel ParseForType (Warn n) WarnAlert lvls1 of
           Inl e \<Rightarrow> Inl e
         | Inr lvls2 \<Rightarrow>
      (case parseLevel ParseForType (Crit n) CritAlert lvls2 of
           Inl e \<Rightarrow> Inl e
         | Inr lvls3 \<Rightarrow>
      (let an = \<lparr>conf = n, handlers = hs2, levels = lvls3, history = [], hIdx = 0,
                 flapping = False, logger = []\<rparr>
       in if UseFlapping n then
            (let h = (if History n = 0 then defaultFlapHistory else History n)
             in if h < 2 then Inl (Err ''alert history count must be >= 2'')
                else if FlapLow n > 1 \<or> FlapHigh n > 1 then
                  Inl (Err ''alert flap thresholds are percentages and should be between 0 and 1'')
                else Inr (an\<lparr>history := replicate (nat h) NoAlert\<rparr>))
          else Inr an))))"

subsection \<open>Level classification\<close>

text \<open>
  \<open>EvalPredicate\<close> is defined elsewhere in the package; it is a parameter \<open>E\<close> of
  the model. It returns the pair \<open>(pass, err)\<close> of the source together with the
  state of the expression after the evaluation.
\<close>

type_synonym ('se, 'f, 't) evaluator = "'se \<Rightarrow> 'f \<Rightarrow> 't \<Rightarrow> (bool \<times> string option) \<times> 'se"

text \<open>
  The loop \<open>for l, se := range a.levels\<close>: \<open>l\<close> is the index of the head of the
  remaining slice, \<open>level\<close> the named result. The function returns the level, the slice
  with the expressions' new states, and the lines logged.
\<close>

fun levelsLoop ::
  "('se, 'f, 't) evaluator \<Rightarrow> 'f \<Rightarrow> 't \<Rightarrow> int \<Rightarrow> 'se option list \<Rightarrow> AlertLevel
     \<Rightarrow> AlertLevel \<times> 'se option list \<times> string list" where
  "levelsLoop E flds tags l [] level = (level, [], [])"
| "levelsLoop E flds tags l (None # ses) level =
     (case levelsLoop E flds tags (l + 1) ses level of
        (lv, ses', lg) \<Rightarrow> (lv, None # ses', lg))"
| "levelsLoop E flds tags l (Some se # ses) level =
     (case E se flds tags of
        ((pass, err), se') \<Rightarrow>
          if pass then
            (case levelsLoop E flds tags (l + 1) ses l of
               (lv, ses', lg) \<Rightarrow> (lv, Some se' # ses', lg))
          else
            (case err of
               Some msg \<Rightarrow> (level, Some se' # ses, [''E! error evaluating expression: '' @ msg])
             | None \<Rightarrow> (level, Some se' # ses, [])))"

definition determineLevel ::
  "('se, 'f, 't) evaluator \<Rightarrow> 'se AlertNode \<Rightarrow> 'f \<Rightarrow> 't \<Rightarrow> AlertLevel \<times> 'se AlertNode" where
  "determineLevel E a flds tags =
     (case levelsLoop E flds tags 0 (levels a) NoAlert of
        (lv, ses', lg) \<Rightarrow> (lv, a\<lparr>levels := ses', logger := logger a @ lg\<rparr>))"

subsection \<open>Properties of the level classification\<close>

text \<open>
  The three components of what \<open>EvalPredicate\<close> returns. A predicate passes when the
  \<open>pass\<close> component is true; the source tests \<open>pass\<close> before \<open>err\<close>.
\<close>

definition passes :: "('se, 'f, 't) evaluator \<Rightarrow> 'f \<Rightarrow> 't \<Rightarrow> 'se \<Rightarrow> bool" where
  "passes E flds tags se = fst (fst (E se flds tags))"

definition evalError :: "('se, 'f, 't) evaluator \<Rightarrow> 'f \<Rightarrow> 't \<Rightarrow> 'se \<Rightarrow> string option" where
  "evalError E flds tags se = snd (fst (E se flds tags))"

definition evalState :: "('se, 'f, 't) evaluator \<Rightarrow> 'f \<Rightarrow> 't \<Rightarrow> 'se \<Rightarrow> 'se" where
  "evalState E flds tags se = snd (E se flds tags)"

text \<open>The severities that have a predicate, in ascending order.\<close>

definition configured :: "'se option list \<Rightarrow> AlertLevel list" where
  "configured lvls = map int (filter (\<lambda>i. lvls ! i \<noteq> None) [0..<length lvls])"

lemma configured_Nil: "configured [] = []"
  by (simp add: configured_def)

lemma configured_Cons:
  "configured (x # xs) = (if x \<noteq> None then [0] else []) @ map (\<lambda>i. i + 1) (configured xs)"
proof -
  have "[0..<length (x # xs)] = 0 # map Suc [0..<length xs]"
    by (simp add: upt_conv_Cons map_Suc_upt del: upt_Suc)
  then show ?thesis
    by (simp add: configured_def filter_map o_def del: upt_Suc)
qed

text \<open>The line logged for the error of an evaluation, if it has one.\<close>

definition errorLog :: "string option \<Rightarrow> string list" where
  "errorLog err = (case err of Some msg \<Rightarrow> [''E! error evaluating expression: '' @ msg] | None \<Rightarrow> [])"

lemma shift_index: "(\<lambda>x::int. l + (x + 1)) = (+) (l + 1)"
  by (simp add: fun_eq_iff)

lemma levelsLoop_all_pass:
  "(\<forall>se. Some se \<in> set ses \<longrightarrow> passes E flds tags se) \<Longrightarrow>
   levelsLoop E flds tags l ses level =
     (last (level # map (\<lambda>i. l + i) (configured ses)),
      map (map_option (evalState E flds tags)) ses, [])"
proof (induction ses arbitrary: l level)
  case Nil
  then show ?case by (simp add: configured_Nil)
next
  case (Cons x ses)
  show ?case
  proof (cases x)
    case None
    with Cons show ?thesis
      by (simp add: configured_Cons o_def shift_index)
  next
    case (Some se)
    with Cons.prems have p: "passes E flds tags se" by simp
    obtain pass err se' where e: "E se flds tags = ((pass, err), se')"
      by (metis prod.exhaust)
    with p have pass by (simp add: passes_def)
    with Cons Some e show ?thesis
      by (simp add: configured_Cons o_def shift_index evalState_def)
  qed
qed

lemma levelsLoop_stop:
  "(\<forall>s. Some s \<in> set pre \<longrightarrow> passes E flds tags s) \<Longrightarrow> \<not> passes E flds tags se \<Longrightarrow>
   levelsLoop E flds tags l (pre @ Some se # post) level =
     (last (level # map (\<lambda>i. l + i) (configured pre)),
      map (map_option (evalState E flds tags)) pre @ Some (evalState E flds tags se) # post,
      errorLog (evalError E flds tags se))"
proof (induction pre arbitrary: l level)
  case Nil
  obtain pass err se' where e: "E se flds tags = ((pass, err), se')"
    by (metis prod.exhaust)
  with Nil have "\<not> pass" by (simp add: passes_def)
  with e show ?case
    by (simp add: configured_Nil evalState_def evalError_def errorLog_def split: option.splits)
next
  case (Cons x pre)
  show ?case
  proof (cases x)
    case None
    with Cons show ?thesis
      by (simp add: configured_Cons o_def shift_index)
  next
    case (Some s)
    with Cons.prems have p: "passes E flds tags s" by simp
    obtain pass err s' where e: "E s flds tags = ((pass, err), s')"
      by (metis prod.exhaust)
    with p have pass by (simp add: passes_def)
    with Cons Some e show ?thesis
      by (simp add: configured_Cons o_def shift_index evalState_def)
  qed
qed

lemma set_configured:
  "l \<in> set (configured xs) \<longleftrightarrow> (\<exists>i<length xs. l = int i \<and> xs ! i \<noteq> None)"
  by (auto simp: configured_def)

lemma sorted_configured: "sorted (NoAlert # configured xs)"
  by (auto simp: configured_def NoAlert_def sorted_map sorted_wrt_filter intro!: sorted_wrt_mono_rel[of _ "(\<le>)"])

lemma sorted_last_Max:
  fixes xs :: "int list"
  assumes "sorted xs" "xs \<noteq> []"
  shows "Max (set xs) = last xs"
proof (rule Max_eqI)
  show "finite (set xs)" by simp
  show "last xs \<in> set xs" using assms by simp
  fix y assume y: "y \<in> set xs"
  from assms have "xs = butlast xs @ [last xs]" by simp
  with assms(1) have "sorted (butlast xs @ [last xs])" by simp
  then have "\<forall>z\<in>set (butlast xs). z \<le> last xs"
    by (simp add: sorted_append)
  with y assms(2) show "y \<le> last xs"
    by (metis append_butlast_last_id insert_iff list.set(2) order_refl rotate1.simps(2) set_rotate1)
qed

text \<open>
  \<open>highestPassing\<close> is the highest configured severity whose predicate passes on the
  record, whatever the lower ones do. \<open>highestUnbroken\<close> is the highest configured
  severity such that its predicate and those of all lower configured severities pass.
  Both are \<open>NoAlert\<close> when there is no such severity.
\<close>

definition passesAt ::
  "('se, 'f, 't) evaluator \<Rightarrow> 'f \<Rightarrow> 't \<Rightarrow> 'se option list \<Rightarrow> AlertLevel \<Rightarrow> bool" where
  "passesAt E flds tags lvls l =
     (case lvls ! nat l of Some se \<Rightarrow> passes E flds tags se | None \<Rightarrow> False)"

definition highestPassing ::
  "('se, 'f, 't) evaluator \<Rightarrow> 'f \<Rightarrow> 't \<Rightarrow> 'se option list \<Rightarrow> AlertLevel" where
  "highestPassing E flds tags lvls =
     Max (set (NoAlert # filter (passesAt E flds tags lvls) (configured lvls)))"

definition unbrokenAt ::
  "('se, 'f, 't) evaluator \<Rightarrow> 'f \<Rightarrow> 't \<Rightarrow> 'se option list \<Rightarrow> AlertLevel \<Rightarrow> bool" where
  "unbrokenAt E flds tags lvls l =
     list_all (\<lambda>l'. l' \<le> l \<longrightarrow> passesAt E flds tags lvls l') (configured lvls)"

definition highestUnbroken ::
  "('se, 'f, 't) evaluator \<Rightarrow> 'f \<Rightarrow> 't \<Rightarrow> 'se option list \<Rightarrow> AlertLevel" where
  "highestUnbroken E flds tags lvls =
     Max (set (NoAlert # filter (unbrokenAt E flds tags lvls) (configured lvls)))"

lemma first_failing:
  "(\<forall>se. Some se \<in> set xs \<longrightarrow> P se) \<or>
   (\<exists>pre se post. xs = pre @ Some se # post \<and> (\<forall>s. Some s \<in> set pre \<longrightarrow> P s) \<and> \<not> P se)"
proof (cases "\<exists>x\<in>set xs. \<exists>se. x = Some se \<and> \<not> P se")
  case True
  then obtain pre x post where
    "xs = pre @ x # post" "\<exists>se. x = Some se \<and> \<not> P se"
    "\<forall>y\<in>set pre. \<not> (\<exists>se. y = Some se \<and> \<not> P se)"
    using split_list_first_prop[of xs "\<lambda>x. \<exists>se. x = Some se \<and> \<not> P se"] by blast
  then show ?thesis by blast
next
  case False
  then show ?thesis by blast
qed

lemma unbroken_all_pass:
  assumes "\<forall>se. Some se \<in> set xs \<longrightarrow> passes E flds tags se"
  shows "highestUnbroken E flds tags xs = last (NoAlert # configured xs)"
proof -
  have "\<And>l. l \<in> set (configured xs) \<Longrightarrow> passesAt E flds tags xs l"
    using assms by (auto simp: set_configured passesAt_def split: option.splits dest: nth_mem)
  then have "\<And>l. l \<in> set (configured xs) \<Longrightarrow> unbrokenAt E flds tags xs l"
    by (simp add: unbrokenAt_def list_all_iff)
  then have "filter (unbrokenAt E flds tags xs) (configured xs) = configured xs"
    by (simp add: filter_id_conv)
  then show ?thesis
    using sorted_last_Max[OF sorted_configured[of xs]]
    by (simp add: highestUnbroken_def)
qed

lemma unbroken_stop:
  assumes "\<forall>s. Some s \<in> set pre \<longrightarrow> passes E flds tags s" "\<not> passes E flds tags se"
  shows "highestUnbroken E flds tags (pre @ Some se # post) = last (NoAlert # configured pre)"
proof -
  let ?xs = "pre @ Some se # post"
  have k: "int (length pre) \<in> set (configured ?xs)"
    by (auto simp: set_configured)
  have nk: "\<not> passesAt E flds tags ?xs (int (length pre))"
    using assms(2) by (simp add: passesAt_def)
  have "set (filter (unbrokenAt E flds tags ?xs) (configured ?xs)) = set (configured pre)"
  proof (intro set_eqI iffI)
    fix l assume "l \<in> set (filter (unbrokenAt E flds tags ?xs) (configured ?xs))"
    then have l: "l \<in> set (configured ?xs)" and u: "unbrokenAt E flds tags ?xs l" by auto
    from u k nk have "l < int (length pre)"
      by (auto simp: unbrokenAt_def list_all_iff)
    with l show "l \<in> set (configured pre)"
      by (auto simp: set_configured nth_append)
  next
    fix l assume l: "l \<in> set (configured pre)"
    then obtain i where i: "i < length pre" "l = int i" "pre ! i \<noteq> None"
      by (auto simp: set_configured)
    have "unbrokenAt E flds tags ?xs l"
      unfolding unbrokenAt_def list_all_iff
    proof (intro ballI impI)
      fix l' assume "l' \<in> set (configured ?xs)" "l' \<le> l"
      with i obtain j where j: "j < length pre" "l' = int j" "pre ! j \<noteq> None"
        by (auto simp: set_configured nth_append split: if_splits)
      then obtain s where "pre ! j = Some s" by auto
      moreover with j have "Some s \<in> set pre" by (metis nth_mem)
      ultimately show "passesAt E flds tags ?xs l'"
        using assms(1) j by (simp add: passesAt_def nth_append)
    qed
    moreover from i have "l \<in> set (configured ?xs)"
      by (auto simp: set_configured nth_append)
    ultimately show "l \<in> set (filter (unbrokenAt E flds tags ?xs) (configured ?xs))" by simp
  qed
  then have "highestUnbroken E flds tags ?xs = Max (set (NoAlert # configured pre))"
    by (simp add: highestUnbroken_def)
  then show ?thesis
    using sorted_last_Max[OF sorted_configured[of pre]] by simp
qed

text \<open>
  Claim C1. \<open>determineLevel\<close> consults the configured predicates in ascending
  severity order and skips the nil slots. If every configured predicate passes, all of
  them are evaluated and the level is the last configured severity. Otherwise let
  \<open>se\<close> be the first configured predicate that does not pass, by an error or by
  returning false, \<open>pre\<close> the slots below it and \<open>post\<close> the slots above: the
  level is the accumulated one, that is the last configured severity of \<open>pre\<close>
  (\<open>NoAlert\<close> if there is none), the predicates of \<open>pre\<close> and \<open>se\<close> have been
  evaluated, \<open>post\<close> is handed back untouched (no higher level is consulted), and the
  error, if any, is logged.
\<close>

theorem determineLevel_ascending_until_stop:
  "((\<forall>se. Some se \<in> set (levels a) \<longrightarrow> passes E flds tags se) \<longrightarrow>
      determineLevel E a flds tags =
        (last (NoAlert # configured (levels a)),
         a\<lparr>levels := map (map_option (evalState E flds tags)) (levels a)\<rparr>)) \<and>
   (\<forall>pre se post.
      levels a = pre @ Some se # post \<and> (\<forall>s. Some s \<in> set pre \<longrightarrow> passes E flds tags s) \<and>
      \<not> passes E flds tags se \<longrightarrow>
      determineLevel E a flds tags =
        (last (NoAlert # configured pre),
         a\<lparr>levels := map (map_option (evalState E flds tags)) pre @
                        Some (evalState E flds tags se) # post,
           logger := logger a @ errorLog (evalError E flds tags se)\<rparr>))"
proof (intro conjI allI impI)
  assume "\<forall>se. Some se \<in> set (levels a) \<longrightarrow> passes E flds tags se"
  then show "determineLevel E a flds tags =
        (last (NoAlert # configured (levels a)),
         a\<lparr>levels := map (map_option (evalState E flds tags)) (levels a)\<rparr>)"
    by (simp add: determineLevel_def levelsLoop_all_pass[where l = 0])
next
  fix pre se post
  assume "levels a = pre @ Some se # post \<and> (\<forall>s. Some s \<in> set pre \<longrightarrow> passes E flds tags s) \<and>
      \<not> passes E flds tags se"
  then show "determineLevel E a flds tags =
        (last (NoAlert # configured pre),
         a\<lparr>levels := map (map_option (evalState E flds tags)) pre @
                        Some (evalState E flds tags se) # post,
           logger := logger a @ errorLog (evalError E flds tags se)\<rparr>)"
    by (simp add: determineLevel_def levelsLoop_stop[where l = 0])
qed

text \<open>
  Claim C7, amended. The level returned by \<open>determineLevel\<close> is the highest configured
  severity such that its predicate and the predicates of all lower configured severities
  pass on the record, and \<open>NoAlert\<close> if the lowest configured predicate does not pass.
\<close>

theorem determineLevel_highest_unbroken:
  "fst (determineLevel E a flds tags) = highestUnbroken E flds tags (levels a)"
proof -
  consider (all) "\<forall>se. Some se \<in> set (levels a) \<longrightarrow> passes E flds tags se"
    | (stop) pre se post where "levels a = pre @ Some se # post"
        "\<forall>s. Some s \<in> set pre \<longrightarrow> passes E flds tags s" "\<not> passes E flds tags se"
    using first_failing[of "levels a" "passes E flds tags"] by blast
  then show ?thesis
  proof cases
    case all
    then show ?thesis
      by (simp add: determineLevel_def levelsLoop_all_pass[where l = 0] unbroken_all_pass)
  next
    case stop
    then show ?thesis
      by (simp add: determineLevel_def levelsLoop_stop[where l = 0] unbroken_stop)
  qed
qed


subsection \<open>A concrete node\<close>

text \<open>
  An evaluator for predicates of the form \<open>ref > threshold\<close>: the state of an
  expression is the reference, the threshold and the number of evaluations so far; a
  reference missing from the fields is an evaluation error.
\<close>

definition exampleEval :: "(string \<times> int \<times> nat, string \<rightharpoonup> int, unit) evaluator" where
  "exampleEval se flds tags =
     (case se of (ref, threshold, count) \<Rightarrow>
        (case flds ref of
           None \<Rightarrow> ((False, Some (''missing reference '' @ ref)), (ref, threshold, Suc count))
         | Some v \<Rightarrow> ((threshold < v, None), (ref, threshold, Suc count))))"

definition exampleConf :: pipeline_AlertNode where
  "exampleConf = \<lparr>Post = ''http://localhost/alert'', From = [], ToList = [], Subject = [],
     Info = ''value > 10'', Warn = ''value > 50'', Crit = ''value > 90'',
     UseFlapping = False, History = 0, FlapLow = 0, FlapHigh = 0\<rparr>"

definition exampleNode :: "(string \<times> int \<times> nat) option list \<Rightarrow> (string \<times> int \<times> nat) AlertNode" where
  "exampleNode lvls = \<lparr>conf = exampleConf, handlers = [handlePost], levels = lvls,
     history = [], hIdx = 0, flapping = False, logger = []\<rparr>"

lemma configured_example:
  "configured [None, Some a, None, Some b] = [1, 3]"
  "configured [None, Some a, Some b, Some c] = [1, 2, 3]"
  "configured [None, Some a] = [1]"
  by (simp_all add: configured_def upt_conv_Cons)

text \<open>
  Witness for C1: Info and Crit configured and both passing on \<open>value = 60\<close>; then
  Info passing, Warn failing on a missing reference, and Crit above it not consulted.
\<close>

theorem determineLevel_ascending_until_stop_witness:
  "determineLevel exampleEval
     (exampleNode [None, Some (''value'', 10, 0), None, Some (''value'', 50, 0)])
     [''value'' \<mapsto> 60] () =
     (CritAlert, exampleNode [None, Some (''value'', 10, 1), None, Some (''value'', 50, 1)]) \<and>
   determineLevel exampleEval
     (exampleNode [None, Some (''value'', 10, 0), Some (''load'', 70, 0), Some (''value'', 50, 0)])
     [''value'' \<mapsto> 60] () =
     (InfoAlert,
      (exampleNode [None, Some (''value'', 10, 1), Some (''load'', 70, 1), Some (''value'', 50, 0)])
        \<lparr>logger := [''E! error evaluating expression: missing reference load'']\<rparr>)"
proof -
  have 1: "determineLevel exampleEval
     (exampleNode [None, Some (''value'', 10, 0), None, Some (''value'', 50, 0)])
     [''value'' \<mapsto> 60] () =
     (CritAlert, exampleNode [None, Some (''value'', 10, 1), None, Some (''value'', 50, 1)])"
    using determineLevel_ascending_until_stop
      [where a = "exampleNode [None, Some (''value'', 10, 0), None, Some (''value'', 50, 0)]"
         and E = exampleEval and flds = "[''value'' \<mapsto> 60]" and tags = "()", THEN conjunct1]
    by (simp add: exampleNode_def passes_def exampleEval_def evalState_def configured_example
          CritAlert_def)
  have 2: "determineLevel exampleEval
     (exampleNode [None, Some (''value'', 10, 0), Some (''load'', 70, 0), Some (''value'', 50, 0)])
     [''value'' \<mapsto> 60] () =
     (InfoAlert,
      (exampleNode [None, Some (''value'', 10, 1), Some (''load'', 70, 1), Some (''value'', 50, 0)])
        \<lparr>logger := [''E! error evaluating expression: missing reference load'']\<rparr>)"
    using determineLevel_ascending_until_stop
      [where a = "exampleNode [None, Some (''value'', 10, 0), Some (''load'', 70, 0), Some (''value'', 50, 0)]"
         and E = exampleEval and flds = "[''value'' \<mapsto> 60]" and tags = "()",
       THEN conjunct2, THEN spec, THEN spec, THEN spec,
       of "[None, Some (''value'', 10, 0)]" "(''load'', 70, 0)" "[Some (''value'', 50, 0)]"]
    by (simp add: exampleNode_def passes_def exampleEval_def evalState_def evalError_def
          errorLog_def configured_example InfoAlert_def)
  from 1 2 show ?thesis by (rule conjI)
qed

text \<open>
  Claim C7 as stated fails: with Info \<open>value > 100\<close> and Crit \<open>value > 90\<close>, the
  record \<open>value = 95\<close> passes Crit and not Info. The walk stops at Info and returns
  \<open>NoAlert\<close>, although the highest passing level is \<open>CritAlert\<close>.
\<close>

theorem highest_passing_counterexample:
  "fst (determineLevel exampleEval
     (exampleNode [None, Some (''value'', 100, 0), None, Some (''value'', 90, 0)])
     [''value'' \<mapsto> 95] ()) = NoAlert \<and>
   highestPassing exampleEval [''value'' \<mapsto> 95] ()
     [None, Some (''value'', 100, 0), None, Some (''value'', 90, 0)] = CritAlert"
  by (simp add: determineLevel_def exampleNode_def exampleEval_def highestPassing_def
        passesAt_def passes_def configured_example AlertLevel_defs)

text \<open>Witness for the amended C7: thresholds 10, 50 and 90 on \<open>value = 60\<close>.\<close>

theorem determineLevel_highest_unbroken_witness:
  "fst (determineLevel exampleEval
     (exampleNode [None, Some (''value'', 10, 0), Some (''value'', 50, 0), Some (''value'', 90, 0)])
     [''value'' \<mapsto> 60] ()) = WarnAlert \<and>
   highestUnbroken exampleEval [''value'' \<mapsto> 60] ()
     [None, Some (''value'', 10, 0), Some (''value'', 50, 0), Some (''value'', 90, 0)] = WarnAlert"
  using determineLevel_highest_unbroken
    [of exampleEval "exampleNode [None, Some (''value'', 10, 0), Some (''value'', 50, 0), Some (''value'', 90, 0)]"
        "[''value'' \<mapsto> 60]" "()"]
  by (simp add: exampleNode_def exampleEval_def highestUnbroken_def unbrokenAt_def
        passesAt_def passes_def configured_example AlertLevel_defs)

section \<open>Flap detection\<close>

subsection \<open>float64 arithmetic\<close>

text \<open>
  A \<open>float64\<close> value is a finite number (the real number it denotes), an infinity or
  NaN. An arithmetic operation on finite values computes the exact result and rounds it
  to a \<open>float64\<close>; the rounding function is the parameter \<open>rnd\<close> of every operation.
  For the source it is IEEE 754 round to nearest, ties to even, of binary64
  (\<open>round64\<close> below). Nothing is assumed of \<open>rnd\<close> unless a statement says so, so
  what is proved of the model holds for the arithmetic of the source. Two things are left out: the sign of a zero (here a
  zero divisor is \<open>float64(0)\<close>, a positive zero), and the overflow of a rounded
  result to an infinity (no value of \<open>updateFlapping\<close> exceeds 1.2 times the
  length of the history).
\<close>

datatype float64 = Finite real | PosInf | NegInf | NaN

type_synonym rounding = "real \<Rightarrow> real"

text \<open>The conversion of an untyped constant, and \<open>float64(n)\<close> of an \<open>int\<close>.\<close>

definition float64_const :: "rounding \<Rightarrow> real \<Rightarrow> float64" where
  "float64_const rnd c = Finite (rnd c)"

definition float64_of_int :: "rounding \<Rightarrow> int \<Rightarrow> float64" where
  "float64_of_int rnd n = Finite (rnd (real_of_int n))"

fun fneg :: "float64 \<Rightarrow> float64" where
  "fneg (Finite x) = Finite (- x)"
| "fneg PosInf = NegInf"
| "fneg NegInf = PosInf"
| "fneg NaN = NaN"

fun fadd :: "rounding \<Rightarrow> float64 \<Rightarrow> float64 \<Rightarrow> float64" where
  "fadd rnd (Finite x) (Finite y) = Finite (rnd (x + y))"
| "fadd rnd NaN b = NaN"
| "fadd rnd a NaN = NaN"
| "fadd rnd PosInf NegInf = NaN"
| "fadd rnd NegInf PosInf = NaN"
| "fadd rnd PosInf b = PosInf"
| "fadd rnd a PosInf = PosInf"
| "fadd rnd NegInf b = NegInf"
| "fadd rnd a NegInf = NegInf"

definition fsub :: "rounding \<Rightarrow> float64 \<Rightarrow> float64 \<Rightarrow> float64" where
  "fsub rnd a b = fadd rnd a (fneg b)"

text \<open>
  Division: a finite non-zero value over zero is an infinity, zero over zero is NaN, as
  are NaN operands and an infinity over an infinity.
\<close>

fun fdiv :: "rounding \<Rightarrow> float64 \<Rightarrow> float64 \<Rightarrow> float64" where
  "fdiv rnd (Finite x) (Finite y) =
     (if y = 0 then (if x = 0 then NaN else if 0 < x then PosInf else NegInf)
      else Finite (rnd (x / y)))"
| "fdiv rnd NaN b = NaN"
| "fdiv rnd a NaN = NaN"
| "fdiv rnd (Finite x) b = Finite 0"
| "fdiv rnd PosInf (Finite y) = (if 0 \<le> y then PosInf else NegInf)"
| "fdiv rnd NegInf (Finite y) = (if 0 \<le> y then NegInf else PosInf)"
| "fdiv rnd a b = NaN"

text \<open>The comparisons \<open><\<close> and \<open><=\<close>; both are false when an operand is NaN.\<close>

fun flt :: "float64 \<Rightarrow> float64 \<Rightarrow> bool" where
  "flt (Finite x) (Finite y) = (x < y)"
| "flt NaN b = False"
| "flt a NaN = False"
| "flt PosInf b = False"
| "flt a NegInf = False"
| "flt a b = True"

fun fle :: "float64 \<Rightarrow> float64 \<Rightarrow> bool" where
  "fle (Finite x) (Finite y) = (x \<le> y)"
| "fle NaN b = False"
| "fle a NaN = False"
| "fle NegInf b = True"
| "fle a PosInf = True"
| "fle a b = False"

subsection \<open>The score and the flag\<close>

text \<open>
  The loop \<open>for i := 1; i < l; i++\<close> of \<open>updateFlapping\<close>, with its two
  accumulators. The indices are Go \<open>int\<close>s, so \<open>p := c - 1\<close> can be negative
  and the wrap-around test is the source's. All operands of \<open>%\<close> are non-negative
  here, where Go's remainder and \<open>mod\<close> agree. \<open>changes += weight\<close> and
  \<open>weight += step\<close> are \<open>float64\<close> additions.
\<close>

function changesLoop ::
  "rounding \<Rightarrow> AlertLevel list \<Rightarrow> int \<Rightarrow> int \<Rightarrow> float64 \<Rightarrow> int \<Rightarrow> float64 \<Rightarrow> float64
     \<Rightarrow> float64" where
  "changesLoop rnd hist idx l step i changes weight =
     (if i < l then
        (let c = (i + idx) mod l;
             p = c - 1;
             p = (if p < 0 then l - 1 else p);
             changes = (if hist ! nat c \<noteq> hist ! nat p then fadd rnd changes weight
                        else changes);
             weight = fadd rnd weight step
         in changesLoop rnd hist idx l step (i + 1) changes weight)
      else changes)"
  by pat_completeness auto
termination
  by (relation "measure (\<lambda>(rnd, hist, idx, l, step, i, changes, weight). nat (l - i))") auto

declare changesLoop.simps [simp del]

text \<open>
  The score \<open>p\<close> that \<open>updateFlapping\<close> computes from the ring and its index.
  \<open>maxWeight / weightDiff\<close> is a constant expression: Go evaluates it exactly and
  converts the result once. In \<open>maxWeight - weight\<close> the constant is converted and
  the subtraction is a \<open>float64\<close> one. For a history of one entry the divisor is
  zero: the step is an infinity, the loop does not run and \<open>p\<close> is NaN.
\<close>

definition flapScore :: "rounding \<Rightarrow> AlertLevel list \<Rightarrow> int \<Rightarrow> float64" where
  "flapScore rnd hist idx =
     (let l = int (length hist);
          changes = float64_const rnd 0;
          weight = float64_const rnd (maxWeight / weightDiff);
          step = fdiv rnd (fsub rnd (float64_const rnd maxWeight) weight)
                   (float64_of_int rnd (l - 1));
          changes = changesLoop rnd hist idx l step 1 changes weight
      in fdiv rnd changes (float64_of_int rnd (l - 1)))"

text \<open>
  \<open>updateFlapping\<close>. The write \<open>a.history[a.hIdx] = level\<close> panics when the index
  is out of range, which covers the empty history of a node without flap detection.
  The thresholds are finite \<open>float64\<close> values; the two tests compare them with the
  \<open>float64\<close> score.
\<close>

definition updateFlapping ::
  "rounding \<Rightarrow> 'se AlertNode \<Rightarrow> AlertLevel \<Rightarrow> error + 'se AlertNode" where
  "updateFlapping rnd a level =
     (if hIdx a < 0 \<or> int (length (history a)) \<le> hIdx a then
        Inl (Panic ''index out of range'')
      else
        (let a1 = a\<lparr>history := (history a)[nat (hIdx a) := level]\<rparr>;
             a2 = a1\<lparr>hIdx := (hIdx a1 + 1) mod int (length (history a1))\<rparr>;
             p = flapScore rnd (history a2) (hIdx a2)
         in if flapping a2 \<and> flt p (Finite (FlapLow (conf a2))) then
              Inr (a2\<lparr>flapping := False\<rparr>)
            else if \<not> flapping a2 \<and> flt (Finite (FlapHigh (conf a2))) p then
              Inr (a2\<lparr>flapping := True\<rparr>)
            else Inr a2))"

subsection \<open>The ring, oldest to newest\<close>

text \<open>
  The description of the score in the words of the design: the ring read from its oldest
  entry (at the index, after it has advanced) to its newest, its adjacent pairs, and a
  walk over the pairs that adds the current weight for each pair that differs and then
  increases the weight by the step. \<open>walkState\<close> is the pair of accumulators after the
  walk, \<open>walkPairs\<close> the first of them, \<open>changes\<close>.
\<close>

definition ring :: "AlertLevel list \<Rightarrow> int \<Rightarrow> AlertLevel list" where
  "ring hist idx = rotate (nat idx) hist"

definition adjacentPairs :: "'a list \<Rightarrow> ('a \<times> 'a) list" where
  "adjacentPairs xs = zip xs (tl xs)"

fun walkState ::
  "rounding \<Rightarrow> (AlertLevel \<times> AlertLevel) list \<Rightarrow> float64 \<Rightarrow> float64 \<Rightarrow> float64
     \<Rightarrow> float64 \<times> float64" where
  "walkState rnd [] step changes weight = (changes, weight)"
| "walkState rnd ((older, newer) # ps) step changes weight =
     walkState rnd ps step
       (if older \<noteq> newer then fadd rnd changes weight else changes)
       (fadd rnd weight step)"

definition walkPairs ::
  "rounding \<Rightarrow> (AlertLevel \<times> AlertLevel) list \<Rightarrow> float64 \<Rightarrow> float64 \<Rightarrow> float64 \<Rightarrow> float64" where
  "walkPairs rnd ps step changes weight = fst (walkState rnd ps step changes weight)"

definition ringScore :: "rounding \<Rightarrow> AlertLevel list \<Rightarrow> int \<Rightarrow> float64" where
  "ringScore rnd hist idx =
     (let H = int (length hist);
          weight0 = float64_const rnd (maxWeight / weightDiff);
          step = fdiv rnd (fsub rnd (float64_const rnd maxWeight) weight0)
                   (float64_of_int rnd (H - 1));
          changes = walkPairs rnd (adjacentPairs (ring hist idx)) step (float64_const rnd 0) weight0
      in fdiv rnd changes (float64_of_int rnd (H - 1)))"

lemma walkPairs_simps:
  "walkPairs rnd [] step changes weight = changes"
  "walkPairs rnd ((older, newer) # ps) step changes weight =
     walkPairs rnd ps step
       (if older \<noteq> newer then fadd rnd changes weight else changes)
       (fadd rnd weight step)"
  by (simp_all add: walkPairs_def)

lemma adjacentPairs_nth:
  "Suc k < length xs \<Longrightarrow> adjacentPairs xs ! k = (xs ! k, xs ! Suc k)"
  by (simp add: adjacentPairs_def nth_tl)

lemma length_adjacentPairs: "length (adjacentPairs xs) = length xs - 1"
  by (simp add: adjacentPairs_def)

lemma loop_indices:
  assumes "0 \<le> idx" "idx < int n" "1 \<le> i" "i < int n"
  shows "nat ((i + idx) mod int n) = (nat idx + Suc (nat (i - 1))) mod n"
    and "nat (if (i + idx) mod int n - 1 < 0 then int n - 1 else (i + idx) mod int n - 1)
           = (nat idx + nat (i - 1)) mod n"
proof -
  have e: "i + idx = int (nat idx + Suc (nat (i - 1)))" using assms by simp
  show 1: "nat ((i + idx) mod int n) = (nat idx + Suc (nat (i - 1))) mod n"
    unfolding e by (simp only: zmod_int [symmetric] nat_int)
  show "nat (if (i + idx) mod int n - 1 < 0 then int n - 1 else (i + idx) mod int n - 1)
           = (nat idx + nat (i - 1)) mod n"
  proof -
    let ?m = "nat idx + nat (i - 1)"
    have n: "0 < n" using assms by simp
    have c: "(i + idx) mod int n = int (Suc ?m mod n)"
      unfolding e by (simp add: zmod_int)
    have lt: "?m mod n < n" using n by simp
    show ?thesis
      unfolding c using n lt by (auto simp: mod_Suc)
  qed
qed

lemma ring_nth:
  "0 \<le> idx \<Longrightarrow> k < length hist \<Longrightarrow> ring hist idx ! k = hist ! ((nat idx + k) mod length hist)"
  by (simp add: ring_def nth_rotate)

lemma changesLoop_walkPairs:
  "l = int (length hist) \<Longrightarrow> 0 \<le> idx \<Longrightarrow> idx < l \<Longrightarrow> 1 \<le> i \<Longrightarrow> i \<le> l \<Longrightarrow>
   changesLoop rnd hist idx l step i changes weight =
   walkPairs rnd (drop (nat (i - 1)) (adjacentPairs (ring hist idx))) step changes weight"
proof (induction rnd hist idx l step i changes weight rule: changesLoop.induct)
  case (1 rnd hist idx l step i changes weight)
  let ?r = "ring hist idx"
  have len: "length ?r = length hist" by (simp add: ring_def)
  show ?case
  proof (cases "i < l")
    case False
    with 1 have "i = int (length hist)" by simp
    then have "drop (nat (i - 1)) (adjacentPairs ?r) = []"
      by (simp add: length_adjacentPairs len)
    with False show ?thesis
      by (simp add: changesLoop.simps[of rnd hist idx l step i] walkPairs_simps)
  next
    case True
    let ?k = "nat (i - 1)"
    from True 1 have k: "Suc ?k < length hist" by simp
    from 1 have l: "l = int (length hist)" by simp
    from True 1 have prem: "0 \<le> idx" "idx < int (length hist)" "1 \<le> i" "i < int (length hist)"
      by simp_all
    have c: "nat ((i + idx) mod l) = (nat idx + Suc ?k) mod length hist"
      and p: "nat (if (i + idx) mod l - 1 < 0 then l - 1 else (i + idx) mod l - 1)
                = (nat idx + ?k) mod length hist"
      using loop_indices[OF prem] unfolding l by blast+
    from prem have r1: "?r ! ?k = hist ! ((nat idx + ?k) mod length hist)"
      and r2: "?r ! Suc ?k = hist ! ((nat idx + Suc ?k) mod length hist)"
      using k by (simp_all add: ring_nth del: One_nat_def)
    have pn: "adjacentPairs ?r ! ?k = (?r ! ?k, ?r ! Suc ?k)"
      using k by (simp add: adjacentPairs_nth len)
    have sk: "Suc ?k = nat (i + 1 - 1)" using prem by simp
    have "drop ?k (adjacentPairs ?r) = adjacentPairs ?r ! ?k # drop (Suc ?k) (adjacentPairs ?r)"
      using k by (simp add: Cons_nth_drop_Suc length_adjacentPairs len)
    also have "\<dots> = (hist ! ((nat idx + ?k) mod length hist),
                      hist ! ((nat idx + Suc ?k) mod length hist)) # drop (Suc ?k) (adjacentPairs ?r)"
      by (simp only: pn r1 r2)
    also have "\<dots> = (hist ! nat (if (i + idx) mod l - 1 < 0 then l - 1 else (i + idx) mod l - 1),
         hist ! nat ((i + idx) mod l)) # drop (Suc ?k) (adjacentPairs ?r)"
      by (simp only: c p)
    finally have d: "drop ?k (adjacentPairs ?r) =
        (hist ! nat (if (i + idx) mod l - 1 < 0 then l - 1 else (i + idx) mod l - 1),
         hist ! nat ((i + idx) mod l)) # drop (nat (i + 1 - 1)) (adjacentPairs ?r)"
      by (simp only: sk)
    from True 1 have b: "1 \<le> i + 1" "i + 1 \<le> l" by simp_all
    show ?thesis
      unfolding d
      apply (subst changesLoop.simps)
      using True "1.IH"[OF True refl refl refl refl refl "1.prems"(1-3) b]
      apply (simp add: Let_def walkPairs_simps)
      done
  qed
qed

text \<open>
  A history of one entry, which \<open>newAlertNode\<close> never builds: the score is zero over
  zero, NaN, and both tests of the flag are false.
\<close>

lemma flapScore_single: "rnd 0 = 0 \<Longrightarrow> flapScore rnd [x] 0 = NaN"
  by (simp add: flapScore_def Let_def changesLoop.simps[of rnd "[x]" 0 1]
        float64_const_def float64_of_int_def)

lemma flapScore_ringScore:
  assumes "0 \<le> idx" "idx < int (length hist)"
  shows "flapScore rnd hist idx = ringScore rnd hist idx"
proof -
  have "1 \<le> int (length hist)" using assms by simp
  with assms changesLoop_walkPairs[of "int (length hist)" hist idx 1 rnd] show ?thesis
    by (simp add: flapScore_def ringScore_def Let_def)
qed

lemma ring_after_write:
  assumes "0 \<le> idx" "idx < int (length hist)"
  shows "ring (hist[nat idx := x]) ((idx + 1) mod int (length hist)) =
         drop (Suc (nat idx)) hist @ take (nat idx) hist @ [x]"
proof -
  let ?k = "nat idx" and ?h = "hist[nat idx := x]"
  from assms have k: "?k < length hist" by simp
  have "nat ((idx + 1) mod int (length hist)) = Suc ?k mod length hist"
    using assms by (simp add: nat_mod_distrib nat_add_distrib)
  moreover have "rotate (Suc ?k mod length hist) ?h = rotate (Suc ?k) ?h"
    using rotate_conv_mod[of "Suc ?k" ?h] by simp
  ultimately have "ring ?h ((idx + 1) mod int (length hist)) = rotate (Suc ?k) ?h"
    by (simp add: ring_def del: rotate_Suc)
  also have "\<dots> = rotate1 (rotate ?k ?h)" by simp
  also have "rotate ?k ?h = drop ?k ?h @ take ?k ?h"
    using k by (simp add: rotate_drop_take)
  also have "drop ?k ?h = x # drop (Suc ?k) hist"
    using k by (simp add: drop_update_cancel Cons_nth_drop_Suc[symmetric])
  also have "take ?k ?h = take ?k hist" by simp
  finally show ?thesis by simp
qed

text \<open>
  Claim C2. For a node with flap detection (the index is inside the history),
  \<open>updateFlapping\<close> writes the level at the ring index, advances the index modulo the
  history length \<open>H\<close>, and sets the flag from \<open>ringScore\<close>: with
  \<open>weight0 = maxWeight / weightDiff\<close> and \<open>step = (maxWeight - weight0) / (H - 1)\<close>,
  the \<open>H - 1\<close> adjacent pairs of the ring are walked from oldest to newest, a pair
  that differs adds the current weight to \<open>changes\<close>, the weight grows by \<open>step\<close>
  after every pair, and \<open>p = changes / (H - 1)\<close>, all in \<open>float64\<close> arithmetic with
  the rounding of the source, whatever it is. The flag is cleared when the node is
  flapping and \<open>p < FlapLow\<close>, set when it is not flapping and \<open>p > FlapHigh\<close>, and
  unchanged otherwise. The ring that is walked holds the entries that followed the
  written slot, then those that preceded it, then the level just written: oldest to
  newest.
\<close>

theorem updateFlapping_ring_walk:
  assumes "0 \<le> hIdx a" "hIdx a < int (length (history a))"
  shows "updateFlapping rnd a level =
     Inr (a\<lparr>history := (history a)[nat (hIdx a) := level],
            hIdx := (hIdx a + 1) mod int (length (history a)),
            flapping :=
              (let p = ringScore rnd ((history a)[nat (hIdx a) := level])
                         ((hIdx a + 1) mod int (length (history a)))
               in if flapping a \<and> flt p (Finite (FlapLow (conf a))) then False
                  else if \<not> flapping a \<and> flt (Finite (FlapHigh (conf a))) p then True
                  else flapping a)\<rparr>) \<and>
     ring ((history a)[nat (hIdx a) := level]) ((hIdx a + 1) mod int (length (history a))) =
       drop (Suc (nat (hIdx a))) (history a) @ take (nat (hIdx a)) (history a) @ [level]"
proof -
  let ?h = "(history a)[nat (hIdx a) := level]"
  let ?i = "(hIdx a + 1) mod int (length (history a))"
  have n: "0 < int (length (history a))" using assms by linarith
  have i: "0 \<le> ?i" "?i < int (length ?h)"
    using pos_mod_sign[OF n] pos_mod_bound[OF n] by simp_all
  have "flapScore rnd ?h ?i = ringScore rnd ?h ?i"
    using i by (rule flapScore_ringScore)
  then have "updateFlapping rnd a level =
     Inr (a\<lparr>history := ?h, hIdx := ?i,
            flapping :=
              (let p = ringScore rnd ?h ?i
               in if flapping a \<and> flt p (Finite (FlapLow (conf a))) then False
                  else if \<not> flapping a \<and> flt (Finite (FlapHigh (conf a))) p then True
                  else flapping a)\<rparr>)"
    using assms by (simp add: updateFlapping_def Let_def)
  moreover have "ring ?h ?i =
      drop (Suc (nat (hIdx a))) (history a) @ take (nat (hIdx a)) (history a) @ [level]"
    using assms by (rule ring_after_write)
  ultimately show ?thesis by simp
qed

subsection \<open>One more change never lowers the score\<close>

text \<open>
  The level written by the previous tick, and the score of the tick that appends
  \<open>level\<close> to the ring of \<open>a\<close>.
\<close>

definition newestLevel :: "'se AlertNode \<Rightarrow> AlertLevel" where
  "newestLevel a = history a ! nat ((hIdx a - 1) mod int (length (history a)))"

definition tickScore :: "rounding \<Rightarrow> 'se AlertNode \<Rightarrow> AlertLevel \<Rightarrow> float64" where
  "tickScore rnd a level =
     flapScore rnd ((history a)[nat (hIdx a) := level])
       ((hIdx a + 1) mod int (length (history a)))"

text \<open>
  What the comparison of two scores needs of the rounding: it is monotone, it keeps 0 and
  1, and it keeps a value that is already rounded. IEEE 754 round to nearest has these
  properties, as has every other rounding mode of the standard.
\<close>

definition rounding :: "rounding \<Rightarrow> bool" where
  "rounding rnd \<longleftrightarrow> mono rnd \<and> rnd 0 = 0 \<and> rnd 1 = 1 \<and> (\<forall>x. rnd (rnd x) = rnd x)"

lemma rounding_mono: "rounding rnd \<Longrightarrow> x \<le> y \<Longrightarrow> rnd x \<le> rnd y"
  by (simp add: rounding_def mono_def)

lemma rounding_nonneg: "rounding rnd \<Longrightarrow> 0 \<le> x \<Longrightarrow> 0 \<le> rnd x"
  using rounding_mono[of rnd 0 x] by (simp add: rounding_def)

lemma rounding_ge_one: "rounding rnd \<Longrightarrow> 1 \<le> x \<Longrightarrow> 1 \<le> rnd x"
  using rounding_mono[of rnd 1 x] by (simp add: rounding_def)

lemma rounding_idem: "rounding rnd \<Longrightarrow> rnd (rnd x) = rnd x"
  by (simp add: rounding_def)

lemma rounding_id: "rounding (\<lambda>x. x)"
  by (simp add: rounding_def mono_def)

lemma adjacentPairs_simps:
  "adjacentPairs [] = []"
  "adjacentPairs [y] = []"
  "adjacentPairs (y # z # zs) = (y, z) # adjacentPairs (z # zs)"
  by (simp_all add: adjacentPairs_def)

lemma adjacentPairs_snoc:
  "xs \<noteq> [] \<Longrightarrow> adjacentPairs (xs @ [x]) = adjacentPairs xs @ [(last xs, x)]"
proof (induction xs rule: list_nonempty_induct)
  case (single y)
  show ?case by (simp add: adjacentPairs_simps)
next
  case (cons y ys)
  then show ?case by (cases ys) (simp_all add: adjacentPairs_simps)
qed

lemma walkState_append:
  "walkState rnd (ps @ qs) step changes weight =
     (case walkState rnd ps step changes weight of
        (changes', weight') \<Rightarrow> walkState rnd qs step changes' weight')"
  by (induction ps arbitrary: changes weight) auto

lemma walkState_finite:
  assumes "rounding rnd" "0 \<le> s"
  shows "rnd c = c \<Longrightarrow> 0 \<le> w \<Longrightarrow>
         \<exists>c' w'. walkState rnd ps (Finite s) (Finite c) (Finite w) = (Finite c', Finite w')
                 \<and> rnd c' = c' \<and> 0 \<le> w'"
proof (induction ps arbitrary: c w)
  case Nil
  then show ?case by simp
next
  case (Cons pr ps)
  obtain older newer where pr: "pr = (older, newer)" by (cases pr)
  let ?c = "if older \<noteq> newer then rnd (c + w) else c"
  have c: "rnd ?c = ?c" using Cons.prems(1) assms(1) by (simp add: rounding_idem)
  have "0 \<le> w + s" using Cons.prems(2) assms(2) by simp
  with assms(1) have w: "0 \<le> rnd (w + s)" by (rule rounding_nonneg[of rnd])
  from Cons.IH[OF c w] show ?case by (cases "older = newer") (simp_all add: pr)
qed

lemma last_before_write:
  assumes "2 \<le> length hist" "0 \<le> idx" "idx < int (length hist)"
  shows "last (drop (Suc (nat idx)) hist @ take (nat idx) hist) =
         hist ! nat ((idx - 1) mod int (length hist))"
proof (cases "idx = 0")
  case True
  with assms have "drop (Suc 0) hist \<noteq> []" by simp
  then have "last (drop (Suc 0) hist) = last hist"
    by (simp add: last_drop)
  also have "\<dots> = hist ! (length hist - 1)"
    using assms(1) by (intro last_conv_nth) auto
  finally have "last (drop (Suc 0) hist) = hist ! (length hist - 1)" .
  moreover have "0 < int (length hist)" using assms(1) by linarith
  then have "(- 1) mod int (length hist) = int (length hist) - 1"
    by (rule zmod_minus1)
  ultimately show ?thesis using True assms(1) by (simp add: nat_diff_distrib)
next
  case False
  with assms have k: "0 < nat idx" "nat idx \<le> length hist" by simp_all
  then have "take (nat idx) hist \<noteq> []" using assms(1) by auto
  then have "last (drop (Suc (nat idx)) hist @ take (nat idx) hist) = last (take (nat idx) hist)"
    by simp
  also have "\<dots> = take (nat idx) hist ! (nat idx - 1)"
    using \<open>take (nat idx) hist \<noteq> []\<close> k by (simp add: last_conv_nth min_def)
  also have "\<dots> = hist ! (nat idx - 1)"
    using k by simp
  finally have "last (drop (Suc (nat idx)) hist @ take (nat idx) hist) = hist ! (nat idx - 1)" .
  moreover have "(idx - 1) mod int (length hist) = idx - 1"
    using assms False by simp
  ultimately show ?thesis using k by (simp add: nat_diff_distrib)
qed


lemma tickScore_last_pair:
  assumes r: "rounding rnd"
    and h: "2 \<le> length (history a)" "0 \<le> hIdx a" "hIdx a < int (length (history a))"
  shows "\<exists>c w d. 0 < d \<and> rnd c = c \<and> 0 \<le> w \<and>
           (\<forall>y. tickScore rnd a y =
                  Finite (rnd ((if newestLevel a \<noteq> y then rnd (c + w) else c) / d)))"
proof -
  let ?hist = "history a" and ?idx = "hIdx a"
  let ?R = "drop (Suc (nat ?idx)) ?hist @ take (nat ?idx) ?hist"
  let ?i = "(?idx + 1) mod int (length ?hist)"
  let ?d = "rnd (real_of_int (int (length ?hist) - 1))"
  let ?w0 = "rnd (maxWeight / weightDiff)"
  let ?s = "rnd (rnd (rnd maxWeight - ?w0) / ?d)"
  have n: "0 < int (length ?hist)" using h(1) by linarith
  have i: "0 \<le> ?i" "?i < int (length ?hist)"
    using pos_mod_sign[OF n] pos_mod_bound[OF n] by simp_all
  have lenR: "length ?R = length ?hist - 1" using h by auto
  then have R: "?R \<noteq> []" using h(1) by auto
  have newest: "last ?R = newestLevel a"
    using last_before_write[OF h] by (simp add: newestLevel_def)
  have "1 \<le> real_of_int (int (length ?hist) - 1)" using h(1) by simp
  with r have "1 \<le> ?d" by (rule rounding_ge_one[of rnd])
  then have d: "0 < ?d" by linarith
  have "0 \<le> maxWeight / weightDiff" by (simp add: maxWeight_def weightDiff_def)
  with r have w0: "0 \<le> ?w0" by (rule rounding_nonneg[of rnd])
  have "maxWeight / weightDiff \<le> maxWeight" by (simp add: maxWeight_def weightDiff_def)
  with r have "?w0 \<le> rnd maxWeight" by (rule rounding_mono[of rnd])
  then have "0 \<le> rnd maxWeight - ?w0" by simp
  with r have "0 \<le> rnd (rnd maxWeight - ?w0)" by (rule rounding_nonneg[of rnd])
  then have "0 \<le> rnd (rnd maxWeight - ?w0) / ?d" using d by simp
  with r have s: "0 \<le> ?s" by (rule rounding_nonneg[of rnd])
  have step: "fdiv rnd (fsub rnd (float64_const rnd maxWeight)
                 (float64_const rnd (maxWeight / weightDiff)))
               (float64_of_int rnd (int (length ?hist) - 1)) = Finite ?s"
    using d by (simp add: fsub_def float64_const_def float64_of_int_def)
  have c0: "rnd 0 = 0" using r by (simp add: rounding_def)
  then have "rnd (rnd 0) = rnd 0" by simp
  from walkState_finite[OF r s this w0, of "adjacentPairs ?R"]
  obtain c w where cw: "walkState rnd (adjacentPairs ?R) (Finite ?s) (Finite (rnd 0)) (Finite ?w0)
      = (Finite c, Finite w)" "rnd c = c" "0 \<le> w"
    by blast
  have "tickScore rnd a y =
      Finite (rnd ((if newestLevel a \<noteq> y then rnd (c + w) else c) / ?d))" for y
  proof -
    have "tickScore rnd a y = ringScore rnd (?hist[nat ?idx := y]) ?i"
      unfolding tickScore_def using i by (intro flapScore_ringScore) simp_all
    moreover have "ring (?hist[nat ?idx := y]) ?i = ?R @ [y]"
      using h(2,3) by (simp add: ring_after_write)
    moreover have "adjacentPairs (?R @ [y]) = adjacentPairs ?R @ [(newestLevel a, y)]"
      using adjacentPairs_snoc[OF R] newest by simp
    moreover have "walkState rnd (adjacentPairs ?R @ [(newestLevel a, y)])
         (Finite ?s) (Finite (rnd 0)) (Finite ?w0) =
       (if newestLevel a \<noteq> y then Finite (rnd (c + w)) else Finite c, Finite (rnd (w + ?s)))"
      unfolding walkState_append cw(1) by simp
    ultimately have "tickScore rnd a y =
        fdiv rnd (if newestLevel a \<noteq> y then Finite (rnd (c + w)) else Finite c) (Finite ?d)"
      using step
      by (simp add: ringScore_def Let_def walkPairs_def float64_const_def float64_of_int_def)
    then show ?thesis using d by simp
  qed
  with d cw(2,3) show ?thesis by blast
qed

text \<open>
  Claim C8. For a fixed ring of at least two entries, the score of the tick that appends
  a level different from the newest one is at least the score of the tick that appends
  the newest level again. Both scores are finite \<open>float64\<close> values: the changes of
  the earlier pairs are the same, the last pair adds a weight that is not negative, and
  rounding is monotone.
\<close>

theorem append_differing_level_monotone:
  assumes "rounding rnd"
    and "2 \<le> length (history a)" "0 \<le> hIdx a" "hIdx a < int (length (history a))"
    and "x \<noteq> newestLevel a"
  shows "fle (tickScore rnd a (newestLevel a)) (tickScore rnd a x)"
proof -
  from tickScore_last_pair[OF assms(1-4)]
  obtain c w d where d: "0 < d" and c: "rnd c = c" and w: "0 \<le> w"
    and score: "\<And>y. tickScore rnd a y =
                  Finite (rnd ((if newestLevel a \<noteq> y then rnd (c + w) else c) / d))"
    by blast
  have "c \<le> c + w" using w by simp
  with assms(1) have "rnd c \<le> rnd (c + w)" by (rule rounding_mono[of rnd])
  then have "c \<le> rnd (c + w)" using c by simp
  then have "c / d \<le> rnd (c + w) / d" using d by (simp add: divide_right_mono)
  with assms(1) have "rnd (c / d) \<le> rnd (rnd (c + w) / d)" by (rule rounding_mono[of rnd])
  then show ?thesis using assms(5) by (simp add: score)
qed

subsection \<open>The rounding of the source\<close>

text \<open>
  IEEE 754 round to nearest, ties to even, for binary64: a value other than zero is
  scaled by the power of two that brings it to 53 bits before the point (fewer for a
  subnormal value, whose exponent stays at the least one), rounded to the nearest
  integer, to the even one of two nearest, and scaled back. Overflow is not modelled:
  the values that IEEE rounds to an infinity, of magnitude \<open>2^1024 - 2^970\<close> and
  more, are rounded as if the exponent had no upper bound.
\<close>

text \<open>The nearest integer, the even one when two are nearest.\<close>

definition roundEven :: "real \<Rightarrow> int" where
  "roundEven r =
     (let f = \<lfloor>r\<rfloor>; d = r - of_int f
      in if d < 1 / 2 then f else if 1 / 2 < d then f + 1 else if even f then f else f + 1)"

text \<open>
  The exponent of the last of the 53 bits of \<open>x\<close>; \<open>-1074\<close> is the exponent of
  the least subnormal value.
\<close>

definition exponent64 :: "real \<Rightarrow> int" where
  "exponent64 x = max (\<lfloor>log 2 \<bar>x\<bar>\<rfloor> - 52) (- 1074)"

definition round64 :: "real \<Rightarrow> real" where
  "round64 x =
     (if x = 0 then 0
      else of_int (roundEven (x / 2 powi exponent64 x)) * 2 powi exponent64 x)"

lemma roundEven_of_int: "roundEven (of_int n) = n"
  by (simp add: roundEven_def)

lemma roundEven_bounds: "\<lfloor>r\<rfloor> \<le> roundEven r \<and> roundEven r \<le> \<lfloor>r\<rfloor> + 1"
  by (simp add: roundEven_def Let_def)

lemma roundEven_mono: "x \<le> y \<Longrightarrow> roundEven x \<le> roundEven y"
proof -
  assume xy: "x \<le> y"
  then have f: "\<lfloor>x\<rfloor> \<le> \<lfloor>y\<rfloor>" by (rule floor_mono)
  show ?thesis
  proof (cases "\<lfloor>x\<rfloor> = \<lfloor>y\<rfloor>")
    case True
    with xy show ?thesis by (auto simp: roundEven_def Let_def)
  next
    case False
    with f have "\<lfloor>x\<rfloor> + 1 \<le> \<lfloor>y\<rfloor>" by simp
    with roundEven_bounds[of x] roundEven_bounds[of y] show ?thesis by linarith
  qed
qed

lemma roundEven_minus: "roundEven (- r) = - roundEven r"
proof (cases "r = of_int \<lfloor>r\<rfloor>")
  case True
  then obtain n where "r = of_int n" ..
  then show ?thesis using roundEven_of_int[of "- n"] roundEven_of_int[of n] by simp
next
  case False
  then have fl: "\<lfloor>- r\<rfloor> = - \<lfloor>r\<rfloor> - 1"
    by (metis ceiling_altdef ceiling_def minus_diff_eq minus_minus uminus_add_conv_diff add.commute)
  show ?thesis
    unfolding roundEven_def Let_def fl
    by (auto simp: algebra_simps)
qed

lemma floor_log2_bounds:
  assumes "0 < x"
  shows "2 powi \<lfloor>log 2 x\<rfloor> \<le> x" "x < 2 powi (\<lfloor>log 2 x\<rfloor> + 1)"
proof -
  have p: "(2::real) powr real_of_int k = 2 powi k" for k
    by (rule powr_real_of_int') simp_all
  from floor_log_eq_powr_iff[of x 2 "\<lfloor>log 2 x\<rfloor>"] assms
  have "2 powr real_of_int \<lfloor>log 2 x\<rfloor> \<le> x \<and> x < 2 powr real_of_int (\<lfloor>log 2 x\<rfloor> + 1)"
    by simp
  then show "2 powi \<lfloor>log 2 x\<rfloor> \<le> x" "x < 2 powi (\<lfloor>log 2 x\<rfloor> + 1)"
    unfolding p by simp_all
qed

lemma floor_log2_less: "0 < x \<Longrightarrow> x < 2 powi j \<Longrightarrow> \<lfloor>log 2 x\<rfloor> < j"
proof (rule ccontr)
  assume x: "0 < x" "x < 2 powi j" and "\<not> \<lfloor>log 2 x\<rfloor> < j"
  then have "j \<le> \<lfloor>log 2 x\<rfloor>" by simp
  then have "(2::real) powi j \<le> 2 powi \<lfloor>log 2 x\<rfloor>" by (rule power_int_increasing) simp
  with floor_log2_bounds(1)[OF x(1)] x(2) show False by linarith
qed

lemma floor_log2_ge: "0 < x \<Longrightarrow> 2 powi j \<le> x \<Longrightarrow> j \<le> \<lfloor>log 2 x\<rfloor>"
proof (rule ccontr)
  assume x: "0 < x" "2 powi j \<le> x" and "\<not> j \<le> \<lfloor>log 2 x\<rfloor>"
  then have "\<lfloor>log 2 x\<rfloor> + 1 \<le> j" by simp
  then have "(2::real) powi (\<lfloor>log 2 x\<rfloor> + 1) \<le> 2 powi j" by (rule power_int_increasing) simp
  with floor_log2_bounds(2)[OF x(1)] x(2) show False by linarith
qed


lemma floor_log2_mono: "0 < x \<Longrightarrow> x \<le> y \<Longrightarrow> \<lfloor>log 2 x\<rfloor> \<le> \<lfloor>log 2 y\<rfloor>"
  by (intro floor_mono) simp

lemma exponent64_minus: "exponent64 (- x) = exponent64 x"
  by (simp add: exponent64_def)

lemma round64_minus: "round64 (- x) = - round64 x"
  by (simp add: round64_def exponent64_minus roundEven_minus)

lemma round64_zero: "round64 0 = 0"
  by (simp add: round64_def)

lemma scaled_le:
  assumes "0 < s" "x \<le> of_int n * s"
  shows "of_int (roundEven (x / s)) * s \<le> of_int n * s"
proof -
  from assms have "x / s \<le> of_int n" by (simp add: pos_divide_le_eq)
  from roundEven_mono[OF this] have "roundEven (x / s) \<le> n" by (simp add: roundEven_of_int)
  then have "real_of_int (roundEven (x / s)) \<le> of_int n" by simp
  with assms(1) show ?thesis by (simp add: mult_right_mono)
qed

lemma scaled_ge:
  assumes "0 < s" "of_int n * s \<le> x"
  shows "of_int n * s \<le> of_int (roundEven (x / s)) * s"
proof -
  from assms have "of_int n \<le> x / s" by (simp add: pos_le_divide_eq)
  from roundEven_mono[OF this] have "n \<le> roundEven (x / s)" by (simp add: roundEven_of_int)
  then have "real_of_int n \<le> of_int (roundEven (x / s))" by simp
  with assms(1) show ?thesis by (simp add: mult_right_mono)
qed

lemma two_powi_split:
  assumes "0 \<le> d"
  shows "(2::real) powi (e + d) = of_int (2 ^ nat d) * 2 powi e"
proof -
  have "(2::real) powi (e + d) = 2 powi e * 2 powi d" by (rule power_int_add) simp
  moreover have "(2::real) powi d = 2 ^ nat d" using assms by (simp add: power_int_def)
  ultimately show ?thesis by simp
qed

lemma round64_nonneg: "0 \<le> x \<Longrightarrow> 0 \<le> round64 x"
proof -
  assume x: "0 \<le> x"
  have "of_int 0 * (2::real) powi exponent64 x
          \<le> of_int (roundEven (x / 2 powi exponent64 x)) * 2 powi exponent64 x"
    using x by (intro scaled_ge) simp_all
  then show ?thesis by (simp add: round64_def)
qed

lemma round64_mono_pos:
  assumes "0 < x" "x \<le> y"
  shows "round64 x \<le> round64 y"
proof -
  let ?kx = "\<lfloor>log 2 x\<rfloor>" and ?ky = "\<lfloor>log 2 y\<rfloor>"
  let ?ex = "exponent64 x" and ?ey = "exponent64 y"
  from assms have y: "0 < y" by simp
  have k: "?kx \<le> ?ky" using assms by (rule floor_log2_mono)
  have ex: "?ex = max (?kx - 52) (- 1074)" and ey: "?ey = max (?ky - 52) (- 1074)"
    using assms y by (simp_all add: exponent64_def)
  have rx: "round64 x = of_int (roundEven (x / 2 powi ?ex)) * 2 powi ?ex"
    and ry: "round64 y = of_int (roundEven (y / 2 powi ?ey)) * 2 powi ?ey"
    using assms y by (simp_all add: round64_def)
  show ?thesis
  proof (cases "?ex = ?ey")
    case True
    have "x / 2 powi ?ey \<le> y / 2 powi ?ey"
      using assms(2) by (simp add: divide_right_mono)
    from roundEven_mono[OF this]
    have "real_of_int (roundEven (x / 2 powi ?ey)) \<le> of_int (roundEven (y / 2 powi ?ey))"
      by simp
    then show ?thesis unfolding rx ry True by (simp add: mult_right_mono)
  next
    case False
    with k ex ey have lt: "?ex < ?ey" and eyk: "?ey = ?ky - 52" and kk: "?kx + 1 \<le> ?ky"
      by linarith+
    have d: "0 \<le> ?ky - ?ex" using lt eyk by linarith
    have "x < 2 powi (?kx + 1)" using floor_log2_bounds(2)[OF assms(1)] .
    also have "\<dots> \<le> 2 powi ?ky" using kk by (rule power_int_increasing) simp
    finally have "x \<le> (2::real) powi (?ex + (?ky - ?ex))" by simp
    then have "x \<le> of_int (2 ^ nat (?ky - ?ex)) * (2::real) powi ?ex"
      unfolding two_powi_split[OF d] .
    then have "round64 x \<le> of_int (2 ^ nat (?ky - ?ex)) * (2::real) powi ?ex"
      unfolding rx by (intro scaled_le) simp_all
    also have "\<dots> = 2 powi ?ky" using two_powi_split[OF d, of ?ex] by simp
    finally have 1: "round64 x \<le> 2 powi ?ky" .
    have "(2::real) powi (?ey + 52) \<le> y" using floor_log2_bounds(1)[OF y] eyk by simp
    then have "of_int (2 ^ nat 52) * (2::real) powi ?ey \<le> y"
      using two_powi_split[of 52 ?ey] by simp
    then have "of_int (2 ^ nat 52) * (2::real) powi ?ey \<le> round64 y"
      unfolding ry by (intro scaled_ge) simp_all
    moreover have "of_int (2 ^ nat 52) * (2::real) powi ?ey = 2 powi ?ky"
      using two_powi_split[of 52 ?ey] eyk by simp
    ultimately have "2 powi ?ky \<le> round64 y" by simp
    with 1 show ?thesis by linarith
  qed
qed

lemma round64_mono: "x \<le> y \<Longrightarrow> round64 x \<le> round64 y"
proof -
  assume xy: "x \<le> y"
  consider "0 < x" | "x \<le> 0" "0 \<le> y" | "y < 0" by linarith
  then show ?thesis
  proof cases
    case 1
    then show ?thesis using xy by (rule round64_mono_pos)
  next
    case 2
    from round64_nonneg[of "- x"] 2(1) have "round64 x \<le> 0" by (simp add: round64_minus)
    with round64_nonneg[OF 2(2)] show ?thesis by linarith
  next
    case 3
    then have "0 < - y" "- y \<le> - x" using xy by simp_all
    from round64_mono_pos[OF this] show ?thesis by (simp add: round64_minus)
  qed
qed


lemma exponent64_ge: "- 1074 \<le> exponent64 x"
  by (simp add: exponent64_def)

lemma exponent64_le:
  assumes "x \<noteq> 0" "\<bar>x\<bar> < 2 powi (d + 53)" "- 1074 \<le> d"
  shows "exponent64 x \<le> d"
proof -
  from assms(1) have "0 < \<bar>x\<bar>" by simp
  from floor_log2_less[OF this assms(2)] assms(3) show ?thesis
    by (simp add: exponent64_def)
qed

lemma abs_less_exponent64: "x \<noteq> 0 \<Longrightarrow> \<bar>x\<bar> < 2 powi (exponent64 x + 53)"
proof -
  assume "x \<noteq> 0"
  then have x: "0 < \<bar>x\<bar>" by simp
  have "\<lfloor>log 2 \<bar>x\<bar>\<rfloor> + 1 \<le> exponent64 x + 53" by (simp add: exponent64_def)
  then have "(2::real) powi (\<lfloor>log 2 \<bar>x\<bar>\<rfloor> + 1) \<le> 2 powi (exponent64 x + 53)"
    by (rule power_int_increasing) simp
  with floor_log2_bounds(2)[OF x] show ?thesis by linarith
qed

lemma round64_fixed:
  assumes "x = of_int m * 2 powi d" "exponent64 x \<le> d"
  shows "round64 x = x"
proof (cases "x = 0")
  case True
  then show ?thesis by (simp add: round64_def)
next
  case False
  let ?e = "exponent64 x"
  from assms(2) have d: "0 \<le> d - ?e" by simp
  have "(2::real) powi d = 2 powi (?e + (d - ?e))" by simp
  also have "\<dots> = of_int (2 ^ nat (d - ?e)) * 2 powi ?e" by (rule two_powi_split[OF d])
  finally have x: "x = of_int (m * 2 ^ nat (d - ?e)) * 2 powi ?e"
    using assms(1) by simp
  have "x / 2 powi ?e = of_int (m * 2 ^ nat (d - ?e))"
    by (subst x) simp
  then have "roundEven (x / 2 powi ?e) = m * 2 ^ nat (d - ?e)"
    by (simp only: roundEven_of_int)
  with False x show ?thesis by (simp add: round64_def)
qed

lemma round64_idem: "round64 (round64 x) = round64 x"
proof (cases "x = 0")
  case True
  then show ?thesis by (simp add: round64_def)
next
  case False
  let ?e = "exponent64 x"
  let ?s = "(2::real) powi ?e"
  let ?n = "roundEven (x / ?s)"
  let ?v = "of_int ?n * ?s"
  have s: "0 < ?s" by (simp add: zero_less_power_int)
  have v: "round64 x = ?v" using False by (simp add: round64_def)
  have big: "(2::real) powi (?e + 53) = of_int (2 ^ nat 53) * ?s"
    by (rule two_powi_split) simp
  from abs_less_exponent64[OF False] have "x \<le> of_int (2 ^ nat 53) * ?s"
    and "of_int (- (2 ^ nat 53)) * ?s \<le> x" unfolding big by simp_all
  then have "x / ?s \<le> of_int (2 ^ nat 53)" "of_int (- (2 ^ nat 53)) \<le> x / ?s"
    using s by (simp_all only: pos_divide_le_eq pos_le_divide_eq)
  from roundEven_mono[OF this(1)] roundEven_mono[OF this(2)]
  have n: "?n \<le> 2 ^ nat 53" "- (2 ^ nat 53) \<le> ?n"
    by (simp_all only: roundEven_of_int)
  show ?thesis
  proof (cases "?n = 0")
    case True
    then show ?thesis unfolding v by (simp add: round64_def)
  next
    case n0: False
    then have v0: "?v \<noteq> 0" using s by simp
    show ?thesis
    proof (cases "\<bar>?n\<bar> < 2 ^ nat 53")
      case True
      then have "\<bar>real_of_int ?n\<bar> < of_int (2 ^ nat 53)" by linarith
      then have "\<bar>?v\<bar> < of_int (2 ^ nat 53) * ?s"
        using s by (simp add: abs_mult)
      then have "\<bar>?v\<bar> < 2 powi (?e + 53)" unfolding big .
      from exponent64_le[OF v0 this exponent64_ge] have "exponent64 ?v \<le> ?e" .
      from round64_fixed[OF refl this] show ?thesis unfolding v .
    next
      case False
      with n have "?n = 2 ^ nat 53 \<or> ?n = - (2 ^ nat 53)" by linarith
      then obtain m :: int where m: "?n = m * 2" "\<bar>m\<bar> = 2 ^ nat 52"
        by (auto simp: eval_nat_numeral)
      have s1: "(2::real) powi (?e + 1) = 2 * ?s" by (simp add: power_int_add)
      then have vm: "?v = of_int m * 2 powi (?e + 1)" using m(1) by simp
      have "(2::real) powi (?e + 1 + 53) = of_int (2 ^ nat 53) * 2 powi (?e + 1)"
        by (rule two_powi_split) simp
      moreover have "\<bar>?v\<bar> = of_int (2 ^ nat 52) * 2 powi (?e + 1)"
        unfolding vm using m(2) by (simp add: abs_mult)
      ultimately have "\<bar>?v\<bar> < 2 powi (?e + 1 + 53)"
        using zero_less_power_int[of "2::real" "?e + 1"] by simp
      moreover have "- 1074 \<le> ?e + 1" using exponent64_ge[of x] by simp
      ultimately have "exponent64 ?v \<le> ?e + 1" using exponent64_le[OF v0] by blast
      from round64_fixed[OF vm this] show ?thesis unfolding v .
    qed
  qed
qed

lemma round64_one: "round64 1 = 1"
proof -
  have "(1::real) = of_int (2 ^ nat 52) * 2 powi (- 52)"
    using two_powi_split[of 52 "- 52"] by simp
  moreover have "exponent64 1 \<le> - 52" by (simp add: exponent64_def)
  ultimately show ?thesis by (rule round64_fixed)
qed

text \<open>\<open>round64\<close> has the properties that the comparison of two scores needs.\<close>

lemma rounding_round64: "rounding round64"
  by (simp add: rounding_def mono_def round64_mono round64_zero round64_one round64_idem)

text \<open>
  The value of \<open>round64\<close> at a given number, from the binade of the number: below 2
  (\<open>2^-j \<le> |x| < 2^(1-j)\<close>) and from 1 on (\<open>2^j \<le> |x| < 2^(j+1)\<close>).
\<close>

lemma round64_eval:
  assumes "2 powi k \<le> \<bar>x\<bar>" "\<bar>x\<bar> < 2 powi (k + 1)" "- 1022 \<le> k"
  shows "round64 x = of_int (roundEven (x / 2 powi (k - 52))) * 2 powi (k - 52)"
proof -
  have p: "0 < (2::real) powi k" by (simp add: zero_less_power_int)
  with assms(1) have x: "0 < \<bar>x\<bar>" by linarith
  have "\<lfloor>log 2 \<bar>x\<bar>\<rfloor> = k"
    using floor_log2_less[OF x assms(2)] floor_log2_ge[OF x assms(1)] by simp
  then have "exponent64 x = k - 52" using assms(3) by (simp add: exponent64_def)
  with x show ?thesis by (simp add: round64_def)
qed

lemma round64_below_two:
  assumes "1 \<le> \<bar>x\<bar> * 2 ^ j" "\<bar>x\<bar> * 2 ^ j < 2" "j \<le> 1022"
  shows "round64 x = of_int (roundEven (x * 2 ^ (52 + j))) / 2 ^ (52 + j)"
proof -
  have e: "(2::real) powi (- int j) = 1 / 2 ^ j" "(2::real) powi (- int j + 1) = 2 / 2 ^ j"
    "(2::real) powi (- int j - 52) = 1 / 2 ^ (52 + j)"
    by (simp_all add: power_int_add power_int_diff power_int_minus field_simps power_add)
  have "2 powi (- int j) \<le> \<bar>x\<bar>" "\<bar>x\<bar> < 2 powi (- int j + 1)"
    using assms(1,2) unfolding e by (simp_all add: field_simps)
  from round64_eval[OF this] assms(3) show ?thesis unfolding e by simp
qed

lemma round64_above_one:
  assumes "2 ^ j \<le> \<bar>x\<bar>" "\<bar>x\<bar> < 2 * 2 ^ j" "j \<le> 52"
  shows "round64 x = of_int (roundEven (x * 2 ^ (52 - j))) / 2 ^ (52 - j)"
proof -
  have e: "(2::real) powi (int j) = 2 ^ j" "(2::real) powi (int j + 1) = 2 * 2 ^ j"
    by (simp_all add: power_int_add)
  have "(2::real) powi (int j - 52) = 2 powi (- int (52 - j))" using assms(3) by simp
  also have "\<dots> = 1 / 2 ^ (52 - j)" by (simp add: power_int_minus field_simps)
  finally have e': "(2::real) powi (int j - 52) = 1 / 2 ^ (52 - j)" .
  have "2 powi (int j) \<le> \<bar>x\<bar>" "\<bar>x\<bar> < 2 powi (int j + 1)"
    using assms(1,2) unfolding e by simp_all
  from round64_eval[OF this] show ?thesis unfolding e' by simp
qed

subsection \<open>A node with flap detection\<close>

text \<open>History 4, thresholds 0.25 and 0.5, as in the sixth seed scenario of the design.\<close>

definition flapConf :: pipeline_AlertNode where
  "flapConf = exampleConf\<lparr>UseFlapping := True, History := 4, FlapLow := 1 / 4, FlapHigh := 1 / 2\<rparr>"

definition flapNode :: "AlertLevel list \<Rightarrow> int \<Rightarrow> bool \<Rightarrow> (string \<times> int \<times> nat) AlertNode" where
  "flapNode hist idx fl = \<lparr>conf = flapConf, handlers = [handlePost],
     levels = [None, None, None, Some (''value'', 90, 0)],
     history = hist, hIdx = idx, flapping = fl, logger = []\<rparr>"

text \<open>
  The examples are evaluated with \<open>round64\<close>. The constants: \<open>weight\<close>
  starts at the \<open>float64\<close> nearest to 0.8, and \<open>maxWeight\<close> is converted to
  the \<open>float64\<close> nearest to 1.2.
\<close>

lemma float64_weight0:
  "float64_const round64 (maxWeight / weightDiff) = Finite (3602879701896397 / 4503599627370496)"
proof -
  have "round64 (4 / 5) = 3602879701896397 / 4503599627370496"
    by (subst round64_below_two[where j = 1]) (simp_all add: roundEven_def)
  then show ?thesis by (simp add: float64_const_def maxWeight_def weightDiff_def)
qed

lemma float64_maxWeight:
  "float64_const round64 maxWeight = Finite (5404319552844595 / 4503599627370496)"
proof -
  have "round64 (6 / 5) = 5404319552844595 / 4503599627370496"
    by (subst round64_above_one[where j = 0]) (simp_all add: roundEven_def)
  then show ?thesis by (simp add: float64_const_def maxWeight_def)
qed

lemma float64_changes0: "float64_const round64 0 = Finite 0"
  by (simp add: float64_const_def round64_zero)

lemma round64_int_3: "round64 3 = 3"
  by (subst round64_above_one[where j = 1]) (simp_all add: roundEven_def)

lemma round64_int_10: "round64 10 = 10"
  by (subst round64_above_one[where j = 3]) (simp_all add: roundEven_def)

lemma float64_divisors:
  "float64_of_int round64 3 = Finite 3"
  "float64_of_int round64 10 = Finite 10"
  by (simp_all add: float64_of_int_def round64_int_3 round64_int_10)

text \<open>
  The additions, subtractions and divisions of the examples, each with its exact result
  rounded.
\<close>

lemma float64_step_01:
  "fsub round64 (Finite (5404319552844595 / 4503599627370496)) (Finite (3602879701896397 / 4503599627370496)) =
     Finite (900719925474099 / 2251799813685248)"
proof -
  have "round64 (5404319552844595 / 4503599627370496 + - (3602879701896397 / 4503599627370496)) =
      900719925474099 / 2251799813685248"
    by (subst round64_below_two[where j = 2]) (simp_all add: roundEven_def)
  then show ?thesis by (simp only: fsub_def fneg.simps fadd.simps)
qed

lemma float64_step_02:
  "fdiv round64 (Finite (900719925474099 / 2251799813685248)) (Finite (3)) =
     Finite (300239975158033 / 2251799813685248)"
proof -
  have "round64 ((900719925474099 / 2251799813685248) / (3)) =
      300239975158033 / 2251799813685248"
    by (subst round64_below_two[where j = 3]) (simp_all add: roundEven_def)
  moreover have "((3) = (0::real)) = False" by simp
  ultimately show ?thesis by (simp only: fdiv.simps if_False)
qed

lemma float64_step_03:
  "fadd round64 (Finite (3602879701896397 / 4503599627370496)) (Finite (300239975158033 / 2251799813685248)) =
     Finite (4203359652212463 / 4503599627370496)"
proof -
  have "round64 (3602879701896397 / 4503599627370496 + 300239975158033 / 2251799813685248) =
      4203359652212463 / 4503599627370496"
    by (subst round64_below_two[where j = 1]) (simp_all add: roundEven_def)
  then show ?thesis by (simp only: fadd.simps)
qed

lemma float64_step_04:
  "fadd round64 (Finite (4203359652212463 / 4503599627370496)) (Finite (300239975158033 / 2251799813685248)) =
     Finite (4803839602528529 / 4503599627370496)"
proof -
  have "round64 (4203359652212463 / 4503599627370496 + 300239975158033 / 2251799813685248) =
      4803839602528529 / 4503599627370496"
    by (subst round64_below_two[where j = 0]) (simp_all add: roundEven_def)
  then show ?thesis by (simp only: fadd.simps)
qed

lemma float64_step_05:
  "fadd round64 (Finite (0)) (Finite (4803839602528529 / 4503599627370496)) =
     Finite (4803839602528529 / 4503599627370496)"
proof -
  have "round64 (0 + 4803839602528529 / 4503599627370496) =
      4803839602528529 / 4503599627370496"
    by (subst round64_below_two[where j = 0]) (simp_all add: roundEven_def)
  then show ?thesis by (simp only: fadd.simps)
qed

lemma float64_step_06:
  "fadd round64 (Finite (4803839602528529 / 4503599627370496)) (Finite (300239975158033 / 2251799813685248)) =
     Finite (5404319552844595 / 4503599627370496)"
proof -
  have "round64 (4803839602528529 / 4503599627370496 + 300239975158033 / 2251799813685248) =
      5404319552844595 / 4503599627370496"
    by (subst round64_below_two[where j = 0]) (simp_all add: roundEven_def)
  then show ?thesis by (simp only: fadd.simps)
qed

lemma float64_step_07:
  "fdiv round64 (Finite (4803839602528529 / 4503599627370496)) (Finite (3)) =
     Finite (6405119470038039 / 18014398509481984)"
proof -
  have "round64 ((4803839602528529 / 4503599627370496) / (3)) =
      6405119470038039 / 18014398509481984"
    by (subst round64_below_two[where j = 2]) (simp_all add: roundEven_def)
  moreover have "((3) = (0::real)) = False" by simp
  ultimately show ?thesis by (simp only: fdiv.simps if_False)
qed

lemma float64_step_08:
  "fdiv round64 (Finite (0)) (Finite (3)) =
     Finite (0)"
proof -
  have "round64 ((0) / (3)) =
      0"
    by (simp add: round64_zero)
  moreover have "((3) = (0::real)) = False" by simp
  ultimately show ?thesis by (simp only: fdiv.simps if_False)
qed

lemma float64_step_09:
  "fadd round64 (Finite (0)) (Finite (3602879701896397 / 4503599627370496)) =
     Finite (3602879701896397 / 4503599627370496)"
proof -
  have "round64 (0 + 3602879701896397 / 4503599627370496) =
      3602879701896397 / 4503599627370496"
    by (subst round64_below_two[where j = 1]) (simp_all add: roundEven_def)
  then show ?thesis by (simp only: fadd.simps)
qed

lemma float64_step_10:
  "fadd round64 (Finite (3602879701896397 / 4503599627370496)) (Finite (4203359652212463 / 4503599627370496)) =
     Finite (1951559838527215 / 1125899906842624)"
proof -
  have "round64 (3602879701896397 / 4503599627370496 + 4203359652212463 / 4503599627370496) =
      1951559838527215 / 1125899906842624"
    by (subst round64_below_two[where j = 0]) (simp_all add: roundEven_def)
  then show ?thesis by (simp only: fadd.simps)
qed

lemma float64_step_11:
  "fadd round64 (Finite (1951559838527215 / 1125899906842624)) (Finite (4803839602528529 / 4503599627370496)) =
     Finite (3152519739159347 / 1125899906842624)"
proof -
  have "round64 (1951559838527215 / 1125899906842624 + 4803839602528529 / 4503599627370496) =
      3152519739159347 / 1125899906842624"
    by (subst round64_above_one[where j = 1]) (simp_all add: roundEven_def)
  then show ?thesis by (simp only: fadd.simps)
qed

lemma float64_step_12:
  "fdiv round64 (Finite (3152519739159347 / 1125899906842624)) (Finite (3)) =
     Finite (8406719304424925 / 9007199254740992)"
proof -
  have "round64 ((3152519739159347 / 1125899906842624) / (3)) =
      8406719304424925 / 9007199254740992"
    by (subst round64_below_two[where j = 1]) (simp_all add: roundEven_def)
  moreover have "((3) = (0::real)) = False" by simp
  ultimately show ?thesis by (simp only: fdiv.simps if_False)
qed

lemma float64_step_13:
  "fdiv round64 (Finite (900719925474099 / 2251799813685248)) (Finite (10)) =
     Finite (2882303761517117 / 72057594037927936)"
proof -
  have "round64 ((900719925474099 / 2251799813685248) / (10)) =
      2882303761517117 / 72057594037927936"
    by (subst round64_below_two[where j = 5]) (simp_all add: roundEven_def)
  moreover have "((10) = (0::real)) = False" by simp
  ultimately show ?thesis by (simp only: fdiv.simps if_False)
qed

lemma float64_step_14:
  "fadd round64 (Finite (3602879701896397 / 4503599627370496)) (Finite (2882303761517117 / 72057594037927936)) =
     Finite (3783023686991217 / 4503599627370496)"
proof -
  have "round64 (3602879701896397 / 4503599627370496 + 2882303761517117 / 72057594037927936) =
      3783023686991217 / 4503599627370496"
    by (subst round64_below_two[where j = 1]) (simp_all add: roundEven_def)
  then show ?thesis by (simp only: fadd.simps)
qed

lemma float64_step_15:
  "fadd round64 (Finite (3783023686991217 / 4503599627370496)) (Finite (2882303761517117 / 72057594037927936)) =
     Finite (3963167672086037 / 4503599627370496)"
proof -
  have "round64 (3783023686991217 / 4503599627370496 + 2882303761517117 / 72057594037927936) =
      3963167672086037 / 4503599627370496"
    by (subst round64_below_two[where j = 1]) (simp_all add: roundEven_def)
  then show ?thesis by (simp only: fadd.simps)
qed

lemma float64_step_16:
  "fadd round64 (Finite (0)) (Finite (3963167672086037 / 4503599627370496)) =
     Finite (3963167672086037 / 4503599627370496)"
proof -
  have "round64 (0 + 3963167672086037 / 4503599627370496) =
      3963167672086037 / 4503599627370496"
    by (subst round64_below_two[where j = 1]) (simp_all add: roundEven_def)
  then show ?thesis by (simp only: fadd.simps)
qed

lemma float64_step_17:
  "fadd round64 (Finite (3963167672086037 / 4503599627370496)) (Finite (2882303761517117 / 72057594037927936)) =
     Finite (4143311657180857 / 4503599627370496)"
proof -
  have "round64 (3963167672086037 / 4503599627370496 + 2882303761517117 / 72057594037927936) =
      4143311657180857 / 4503599627370496"
    by (subst round64_below_two[where j = 1]) (simp_all add: roundEven_def)
  then show ?thesis by (simp only: fadd.simps)
qed

lemma float64_step_18:
  "fadd round64 (Finite (3963167672086037 / 4503599627370496)) (Finite (4143311657180857 / 4503599627370496)) =
     Finite (4053239664633447 / 2251799813685248)"
proof -
  have "round64 (3963167672086037 / 4503599627370496 + 4143311657180857 / 4503599627370496) =
      4053239664633447 / 2251799813685248"
    by (subst round64_below_two[where j = 0]) (simp_all add: roundEven_def)
  then show ?thesis by (simp only: fadd.simps)
qed

lemma float64_step_19:
  "fadd round64 (Finite (4143311657180857 / 4503599627370496)) (Finite (2882303761517117 / 72057594037927936)) =
     Finite (4323455642275677 / 4503599627370496)"
proof -
  have "round64 (4143311657180857 / 4503599627370496 + 2882303761517117 / 72057594037927936) =
      4323455642275677 / 4503599627370496"
    by (subst round64_below_two[where j = 1]) (simp_all add: roundEven_def)
  then show ?thesis by (simp only: fadd.simps)
qed

lemma float64_step_20:
  "fadd round64 (Finite (4323455642275677 / 4503599627370496)) (Finite (2882303761517117 / 72057594037927936)) =
     Finite (4503599627370497 / 4503599627370496)"
proof -
  have "round64 (4323455642275677 / 4503599627370496 + 2882303761517117 / 72057594037927936) =
      4503599627370497 / 4503599627370496"
    by (subst round64_below_two[where j = 0]) (simp_all add: roundEven_def)
  then show ?thesis by (simp only: fadd.simps)
qed

lemma float64_step_21:
  "fadd round64 (Finite (4053239664633447 / 2251799813685248)) (Finite (4503599627370497 / 4503599627370496)) =
     Finite (788129934789837 / 281474976710656)"
proof -
  have "round64 (4053239664633447 / 2251799813685248 + 4503599627370497 / 4503599627370496) =
      788129934789837 / 281474976710656"
    by (subst round64_above_one[where j = 1]) (simp_all add: roundEven_def)
  then show ?thesis by (simp only: fadd.simps)
qed

lemma float64_step_22:
  "fadd round64 (Finite (4503599627370497 / 4503599627370496)) (Finite (2882303761517117 / 72057594037927936)) =
     Finite (4683743612465317 / 4503599627370496)"
proof -
  have "round64 (4503599627370497 / 4503599627370496 + 2882303761517117 / 72057594037927936) =
      4683743612465317 / 4503599627370496"
    by (subst round64_below_two[where j = 0]) (simp_all add: roundEven_def)
  then show ?thesis by (simp only: fadd.simps)
qed

lemma float64_step_23:
  "fadd round64 (Finite (788129934789837 / 281474976710656)) (Finite (4683743612465317 / 4503599627370496)) =
     Finite (4323455642275677 / 1125899906842624)"
proof -
  have "round64 (788129934789837 / 281474976710656 + 4683743612465317 / 4503599627370496) =
      4323455642275677 / 1125899906842624"
    by (subst round64_above_one[where j = 1]) (simp_all add: roundEven_def)
  then show ?thesis by (simp only: fadd.simps)
qed

lemma float64_step_24:
  "fadd round64 (Finite (4683743612465317 / 4503599627370496)) (Finite (2882303761517117 / 72057594037927936)) =
     Finite (4863887597560137 / 4503599627370496)"
proof -
  have "round64 (4683743612465317 / 4503599627370496 + 2882303761517117 / 72057594037927936) =
      4863887597560137 / 4503599627370496"
    by (subst round64_below_two[where j = 0]) (simp_all add: roundEven_def)
  then show ?thesis by (simp only: fadd.simps)
qed

lemma float64_step_25:
  "fadd round64 (Finite (4863887597560137 / 4503599627370496)) (Finite (2882303761517117 / 72057594037927936)) =
     Finite (5044031582654957 / 4503599627370496)"
proof -
  have "round64 (4863887597560137 / 4503599627370496 + 2882303761517117 / 72057594037927936) =
      5044031582654957 / 4503599627370496"
    by (subst round64_below_two[where j = 0]) (simp_all add: roundEven_def)
  then show ?thesis by (simp only: fadd.simps)
qed

lemma float64_step_26:
  "fadd round64 (Finite (5044031582654957 / 4503599627370496)) (Finite (2882303761517117 / 72057594037927936)) =
     Finite (5224175567749777 / 4503599627370496)"
proof -
  have "round64 (5044031582654957 / 4503599627370496 + 2882303761517117 / 72057594037927936) =
      5224175567749777 / 4503599627370496"
    by (subst round64_below_two[where j = 0]) (simp_all add: roundEven_def)
  then show ?thesis by (simp only: fadd.simps)
qed

lemma float64_step_27:
  "fadd round64 (Finite (4323455642275677 / 1125899906842624)) (Finite (5224175567749777 / 4503599627370496)) =
     Finite (5629499534213121 / 1125899906842624)"
proof -
  have "round64 (4323455642275677 / 1125899906842624 + 5224175567749777 / 4503599627370496) =
      5629499534213121 / 1125899906842624"
    by (subst round64_above_one[where j = 2]) (simp_all add: roundEven_def)
  then show ?thesis by (simp only: fadd.simps)
qed

lemma float64_step_28:
  "fadd round64 (Finite (5224175567749777 / 4503599627370496)) (Finite (2882303761517117 / 72057594037927936)) =
     Finite (5404319552844597 / 4503599627370496)"
proof -
  have "round64 (5224175567749777 / 4503599627370496 + 2882303761517117 / 72057594037927936) =
      5404319552844597 / 4503599627370496"
    by (subst round64_below_two[where j = 0]) (simp_all add: roundEven_def)
  then show ?thesis by (simp only: fadd.simps)
qed

lemma float64_step_29:
  "fdiv round64 (Finite (5629499534213121 / 1125899906842624)) (Finite (10)) =
     Finite (4503599627370497 / 9007199254740992)"
proof -
  have "round64 ((5629499534213121 / 1125899906842624) / (10)) =
      4503599627370497 / 9007199254740992"
    by (subst round64_below_two[where j = 1]) (simp_all add: roundEven_def)
  moreover have "((10) = (0::real)) = False" by simp
  ultimately show ?thesis by (simp only: fdiv.simps if_False)
qed

lemmas float64_steps = float64_step_01 float64_step_02 float64_step_03 float64_step_04 float64_step_05 float64_step_06 float64_step_07 float64_step_08 float64_step_09 float64_step_10 float64_step_11 float64_step_12 float64_step_13 float64_step_14 float64_step_15 float64_step_16 float64_step_17 float64_step_18 float64_step_19 float64_step_20 float64_step_21 float64_step_22 float64_step_23 float64_step_24 float64_step_25 float64_step_26 float64_step_27 float64_step_28 float64_step_29

lemma level_pairs:
  "(NoAlert \<noteq> NoAlert) = False" "(NoAlert \<noteq> CritAlert) = True"
  "(CritAlert \<noteq> NoAlert) = True"
  by (simp_all add: AlertLevel_defs)

lemma ring_first:
  "adjacentPairs (ring [CritAlert, NoAlert, NoAlert, NoAlert] 1) =
     [(NoAlert, NoAlert), (NoAlert, NoAlert), (NoAlert, CritAlert)]"
  by (simp add: ring_def adjacentPairs_def rotate_def eval_nat_numeral)

text \<open>One \<open>Crit\<close> after three \<open>NoAlert\<close>: only the newest pair differs; the score is 0.35555555555555557.\<close>

lemma ringScore_first:
  "ringScore round64 [CritAlert, NoAlert, NoAlert, NoAlert] 1 =
     Finite (6405119470038039 / 18014398509481984)"
proof -
  have l: "int (length [CritAlert, NoAlert, NoAlert, NoAlert]) - 1 = 3"
    by simp
  have "walkState round64
          [(NoAlert, NoAlert), (NoAlert, NoAlert), (NoAlert, CritAlert)]
          (Finite (300239975158033 / 2251799813685248)) (Finite 0)
          (Finite (3602879701896397 / 4503599627370496)) =
        (Finite (4803839602528529 / 4503599627370496),
         Finite (5404319552844595 / 4503599627370496))"
    by (simp only: walkState.simps level_pairs if_True if_False float64_steps)
  then show ?thesis
    by (simp only: ringScore_def Let_def walkPairs_def ring_first l float64_weight0
          float64_maxWeight float64_divisors float64_changes0 float64_steps fst_conv)
qed

lemma ring_quiet:
  "adjacentPairs (ring [NoAlert, NoAlert, NoAlert, NoAlert] 1) =
     [(NoAlert, NoAlert), (NoAlert, NoAlert), (NoAlert, NoAlert)]"
  by (simp add: ring_def adjacentPairs_def rotate_def eval_nat_numeral)

text \<open>No pair differs: the score is 0.\<close>

lemma ringScore_quiet:
  "ringScore round64 [NoAlert, NoAlert, NoAlert, NoAlert] 1 =
     Finite (0)"
proof -
  have l: "int (length [NoAlert, NoAlert, NoAlert, NoAlert]) - 1 = 3"
    by simp
  have "walkState round64
          [(NoAlert, NoAlert), (NoAlert, NoAlert), (NoAlert, NoAlert)]
          (Finite (300239975158033 / 2251799813685248)) (Finite 0)
          (Finite (3602879701896397 / 4503599627370496)) =
        (Finite (0),
         Finite (5404319552844595 / 4503599627370496))"
    by (simp only: walkState.simps level_pairs if_True if_False float64_steps)
  then show ?thesis
    by (simp only: ringScore_def Let_def walkPairs_def ring_quiet l float64_weight0
          float64_maxWeight float64_divisors float64_changes0 float64_steps fst_conv)
qed

lemma ring_alternating:
  "adjacentPairs (ring [NoAlert, CritAlert, NoAlert, CritAlert] 0) =
     [(NoAlert, CritAlert), (CritAlert, NoAlert), (NoAlert, CritAlert)]"
  by (simp add: ring_def adjacentPairs_def rotate_def eval_nat_numeral)

text \<open>All three pairs differ: the score is 0.9333333333333332.\<close>

lemma ringScore_alternating:
  "ringScore round64 [NoAlert, CritAlert, NoAlert, CritAlert] 0 =
     Finite (8406719304424925 / 9007199254740992)"
proof -
  have l: "int (length [NoAlert, CritAlert, NoAlert, CritAlert]) - 1 = 3"
    by simp
  have "walkState round64
          [(NoAlert, CritAlert), (CritAlert, NoAlert), (NoAlert, CritAlert)]
          (Finite (300239975158033 / 2251799813685248)) (Finite 0)
          (Finite (3602879701896397 / 4503599627370496)) =
        (Finite (3152519739159347 / 1125899906842624),
         Finite (5404319552844595 / 4503599627370496))"
    by (simp only: walkState.simps level_pairs if_True if_False float64_steps)
  then show ?thesis
    by (simp only: ringScore_def Let_def walkPairs_def ring_alternating l float64_weight0
          float64_maxWeight float64_divisors float64_changes0 float64_steps fst_conv)
qed

lemma ring_threshold:
  "adjacentPairs (ring [CritAlert, NoAlert, NoAlert, CritAlert, NoAlert, NoAlert, NoAlert, CritAlert, NoAlert, NoAlert, NoAlert] 8) =
     [(NoAlert, NoAlert), (NoAlert, NoAlert), (NoAlert, CritAlert),
      (CritAlert, NoAlert), (NoAlert, NoAlert), (NoAlert, CritAlert),
      (CritAlert, NoAlert), (NoAlert, NoAlert), (NoAlert, NoAlert),
      (NoAlert, CritAlert)]"
  by (simp add: ring_def adjacentPairs_def rotate_def eval_nat_numeral)

text \<open>History 11, five of the ten pairs differ: the score is 0.5000000000000001.\<close>

lemma ringScore_threshold:
  "ringScore round64 [CritAlert, NoAlert, NoAlert, CritAlert, NoAlert, NoAlert, NoAlert, CritAlert, NoAlert, NoAlert, NoAlert] 8 =
     Finite (4503599627370497 / 9007199254740992)"
proof -
  have l: "int (length [CritAlert, NoAlert, NoAlert, CritAlert, NoAlert, NoAlert, NoAlert, CritAlert, NoAlert, NoAlert, NoAlert]) - 1 = 10"
    by simp
  have "walkState round64
          [(NoAlert, NoAlert), (NoAlert, NoAlert), (NoAlert, CritAlert),
      (CritAlert, NoAlert), (NoAlert, NoAlert), (NoAlert, CritAlert),
      (CritAlert, NoAlert), (NoAlert, NoAlert), (NoAlert, NoAlert),
      (NoAlert, CritAlert)]
          (Finite (2882303761517117 / 72057594037927936)) (Finite 0)
          (Finite (3602879701896397 / 4503599627370496)) =
        (Finite (5629499534213121 / 1125899906842624),
         Finite (5404319552844597 / 4503599627370496))"
    by (simp only: walkState.simps level_pairs if_True if_False float64_steps)
  then show ?thesis
    by (simp only: ringScore_def Let_def walkPairs_def ring_threshold l float64_weight0
          float64_maxWeight float64_divisors float64_changes0 float64_steps fst_conv)
qed

text \<open>
  For the last ring the exact value of the formula is \<open>1/2\<close>, the high threshold
  of the node below, while the \<open>float64\<close> score is above it.
\<close>

lemma ringScore_threshold_exact:
  "ringScore (\<lambda>x. x) [CritAlert, NoAlert, NoAlert, CritAlert, NoAlert, NoAlert, NoAlert, CritAlert, NoAlert, NoAlert, NoAlert] 8 =
     Finite (1 / 2)"
  by (simp add: ringScore_def ring_threshold walkPairs_def fsub_def
        float64_const_def float64_of_int_def maxWeight_def weightDiff_def level_pairs)

text \<open>
  Witness for C2: the fourth level of \<open>NoAlert, Crit, NoAlert, Crit\<close> is written at
  index 3, the index wraps to 0, all three pairs differ, the score is
  0.9333333333333332 and the node starts flapping.
\<close>

theorem updateFlapping_ring_walk_witness:
  "updateFlapping round64 (flapNode [NoAlert, CritAlert, NoAlert, NoAlert] 3 False) CritAlert =
     Inr (flapNode [NoAlert, CritAlert, NoAlert, CritAlert] 0 True)"
  using updateFlapping_ring_walk
    [of "flapNode [NoAlert, CritAlert, NoAlert, NoAlert] 3 False" round64 CritAlert]
  by (simp add: flapNode_def flapConf_def ringScore_alternating)

text \<open>
  Witness for C8, with the rounding of the source: \<open>Crit\<close> appended to a ring whose
  newest level is \<open>NoAlert\<close>.
\<close>

theorem append_differing_level_monotone_witness:
  "CritAlert \<noteq> newestLevel (flapNode [NoAlert, CritAlert, NoAlert, NoAlert] 3 False) \<and>
   fle (tickScore round64 (flapNode [NoAlert, CritAlert, NoAlert, NoAlert] 3 False)
         (newestLevel (flapNode [NoAlert, CritAlert, NoAlert, NoAlert] 3 False)))
       (tickScore round64 (flapNode [NoAlert, CritAlert, NoAlert, NoAlert] 3 False) CritAlert)"
  using append_differing_level_monotone
    [of round64 "flapNode [NoAlert, CritAlert, NoAlert, NoAlert] 3 False" CritAlert]
    rounding_round64
  by (simp add: flapNode_def newestLevel_def AlertLevel_defs)

text \<open>
  A node with the default thresholds of the scenario and a history of 11 that has read
  \<open>Crit, NoAlert, NoAlert, Crit, NoAlert, NoAlert, NoAlert\<close> and now reads
  \<open>Crit\<close>: the score is 0.5000000000000001, above \<open>FlapHigh = 0.5\<close>, and the
  node starts flapping.
\<close>

lemma updateFlapping_rounded_score:
  "updateFlapping round64
     (flapNode [CritAlert, NoAlert, NoAlert, CritAlert, NoAlert, NoAlert, NoAlert, NoAlert, NoAlert, NoAlert, NoAlert] 7 False
        \<lparr>conf := flapConf\<lparr>History := 11\<rparr>\<rparr>) CritAlert =
   Inr (flapNode [CritAlert, NoAlert, NoAlert, CritAlert, NoAlert, NoAlert, NoAlert, CritAlert, NoAlert, NoAlert, NoAlert] 8 True
        \<lparr>conf := flapConf\<lparr>History := 11\<rparr>\<rparr>)"
  by (simp add: updateFlapping_def Let_def flapScore_ringScore ringScore_threshold
        flapNode_def flapConf_def)


section \<open>The run loop of the alert node\<close>

text \<open>\<open>batchToResult\<close>: one series, the row of the batch.\<close>

definition batchToResult :: "(('f, 't) Batch \<Rightarrow> 'row) \<Rightarrow> ('f, 't) Batch \<Rightarrow> 'row Result" where
  "batchToResult BatchToRow b = \<lparr>Series = [BatchToRow b]\<rparr>"

text \<open>
  \<open>for _, h := range a.handlers { h(ad) }\<close>: the calls made, in order. What a handler
  does with the data (JSON, HTTP, SMTP) is outside the model.
\<close>

definition callHandlers ::
  "'se AlertNode \<Rightarrow> 'row AlertData \<Rightarrow> (AlertHandler \<times> 'row AlertData) list" where
  "callHandlers a ad = map (\<lambda>h. (h, ad)) (handlers a)"

text \<open>The block \<open>if l > NoAlert { ... }\<close> of the stream loop.\<close>

definition dispatchPoint ::
  "(('f, 't) Batch \<Rightarrow> 'row) \<Rightarrow> 'se AlertNode \<Rightarrow> AlertLevel \<Rightarrow> ('f, 't) Point
     \<Rightarrow> (AlertHandler \<times> 'row AlertData) list" where
  "dispatchPoint BatchToRow a l p =
     (if l > NoAlert then
        (let batch = \<lparr>Batch_Name = Point_Name p, Batch_Group = Point_Group p,
                       Batch_Tags = Point_Tags p,
                       Batch_Points = [\<lparr>TF_Time = Point_Time p, TF_Fields = Point_Fields p\<rparr>]\<rparr>;
             ad = \<lparr>Level = l, Data = batchToResult BatchToRow batch\<rparr>
         in callHandlers a ad)
      else [])"

text \<open>
  The body of the stream loop for one point read from the input edge. The result is the
  node after the point and the handler calls made; \<open>continue\<close> makes none.
\<close>

definition alertPoint ::
  "('se, 'f, 't) evaluator \<Rightarrow> (('f, 't) Batch \<Rightarrow> 'row) \<Rightarrow> rounding \<Rightarrow> 'se AlertNode \<Rightarrow> ('f, 't) Point
     \<Rightarrow> error + 'se AlertNode \<times> (AlertHandler \<times> 'row AlertData) list" where
  "alertPoint E BatchToRow rnd a p =
     (case determineLevel E a (Point_Fields p) (Point_Tags p) of
        (l, a1) \<Rightarrow>
          if UseFlapping (conf a1) then
            (case updateFlapping rnd a1 l of
               Inl e \<Rightarrow> Inl e
             | Inr a2 \<Rightarrow>
                 if flapping a2 then Inr (a2, [])
                 else Inr (a2, dispatchPoint BatchToRow a2 l p))
          else Inr (a1, dispatchPoint BatchToRow a1 l p))"

text \<open>
  The inner loop of the batch case over \<open>b.Points\<close>; the third component of the result
  is \<open>triggered\<close>. Both \<open>break\<close>s leave the loop with \<open>triggered = true\<close>.
\<close>

fun walkPoints ::
  "('se, 'f, 't) evaluator \<Rightarrow> (('f, 't) Batch \<Rightarrow> 'row) \<Rightarrow> rounding \<Rightarrow> 'se AlertNode \<Rightarrow> ('f, 't) Batch
     \<Rightarrow> 'f TimeFields list
     \<Rightarrow> error + 'se AlertNode \<times> (AlertHandler \<times> 'row AlertData) list \<times> bool" where
  "walkPoints E BatchToRow rnd a b [] = Inr (a, [], False)"
| "walkPoints E BatchToRow rnd a b (p # ps) =
     (case determineLevel E a (TF_Fields p) (Batch_Tags b) of
        (l, a1) \<Rightarrow>
          if l > NoAlert then
            (if UseFlapping (conf a1) then
               (case updateFlapping rnd a1 l of
                  Inl e \<Rightarrow> Inl e
                | Inr a2 \<Rightarrow>
                    if flapping a2 then Inr (a2, [], True)
                    else Inr (a2, callHandlers a2 \<lparr>Level = l, Data = batchToResult BatchToRow b\<rparr>, True))
             else Inr (a1, callHandlers a1 \<lparr>Level = l, Data = batchToResult BatchToRow b\<rparr>, True))
          else walkPoints E BatchToRow rnd a1 b ps)"

text \<open>The body of the batch loop for one batch read from the input edge.\<close>

definition alertBatch ::
  "('se, 'f, 't) evaluator \<Rightarrow> (('f, 't) Batch \<Rightarrow> 'row) \<Rightarrow> rounding \<Rightarrow> 'se AlertNode \<Rightarrow> ('f, 't) Batch
     \<Rightarrow> error + 'se AlertNode \<times> (AlertHandler \<times> 'row AlertData) list" where
  "alertBatch E BatchToRow rnd a b =
     (case walkPoints E BatchToRow rnd a b (Batch_Points b) of
        Inl e \<Rightarrow> Inl e
      | Inr (a1, calls, triggered) \<Rightarrow>
          if \<not> triggered \<and> UseFlapping (conf a1) then
            (case updateFlapping rnd a1 NoAlert of
               Inl e \<Rightarrow> Inl e
             | Inr a2 \<Rightarrow> Inr (a2, calls))
          else Inr (a1, calls))"

text \<open>
  \<open>runAlert\<close>: the input edge delivers a finite sequence of points or of batches before
  it closes. The function itself returns nil; \<open>Inl\<close> is a panic.
\<close>

datatype ('f, 't) edge = StreamEdge "('f, 't) Point list" | BatchEdge "('f, 't) Batch list"

fun pointsLoop ::
  "('se, 'f, 't) evaluator \<Rightarrow> (('f, 't) Batch \<Rightarrow> 'row) \<Rightarrow> rounding \<Rightarrow> 'se AlertNode \<Rightarrow> ('f, 't) Point list
     \<Rightarrow> error + 'se AlertNode \<times> (AlertHandler \<times> 'row AlertData) list" where
  "pointsLoop E BatchToRow rnd a [] = Inr (a, [])"
| "pointsLoop E BatchToRow rnd a (p # ps) =
     (case alertPoint E BatchToRow rnd a p of
        Inl e \<Rightarrow> Inl e
      | Inr (a1, calls) \<Rightarrow>
          (case pointsLoop E BatchToRow rnd a1 ps of
             Inl e \<Rightarrow> Inl e
           | Inr (a2, calls') \<Rightarrow> Inr (a2, calls @ calls')))"

fun batchesLoop ::
  "('se, 'f, 't) evaluator \<Rightarrow> (('f, 't) Batch \<Rightarrow> 'row) \<Rightarrow> rounding \<Rightarrow> 'se AlertNode \<Rightarrow> ('f, 't) Batch list
     \<Rightarrow> error + 'se AlertNode \<times> (AlertHandler \<times> 'row AlertData) list" where
  "batchesLoop E BatchToRow rnd a [] = Inr (a, [])"
| "batchesLoop E BatchToRow rnd a (b # bs) =
     (case alertBatch E BatchToRow rnd a b of
        Inl e \<Rightarrow> Inl e
      | Inr (a1, calls) \<Rightarrow>
          (case batchesLoop E BatchToRow rnd a1 bs of
             Inl e \<Rightarrow> Inl e
           | Inr (a2, calls') \<Rightarrow> Inr (a2, calls @ calls')))"

definition runAlert ::
  "('se, 'f, 't) evaluator \<Rightarrow> (('f, 't) Batch \<Rightarrow> 'row) \<Rightarrow> rounding \<Rightarrow> 'se AlertNode \<Rightarrow> ('f, 't) edge
     \<Rightarrow> error + 'se AlertNode \<times> (AlertHandler \<times> 'row AlertData) list" where
  "runAlert E BatchToRow rnd a ins0 =
     (case ins0 of
        StreamEdge ps \<Rightarrow> pointsLoop E BatchToRow rnd a ps
      | BatchEdge bs \<Rightarrow> batchesLoop E BatchToRow rnd a bs)"

subsection \<open>Invariant of a constructed node\<close>

text \<open>
  What \<open>newAlertNode\<close> establishes and the run loop keeps: the slice of level
  expressions has \<open>CritAlert + 1\<close> slots; with flap detection the history has at least
  two entries and the index is inside it; without flap detection the node is never
  flapping.
\<close>

definition alertInv :: "'se AlertNode \<Rightarrow> bool" where
  "alertInv a \<longleftrightarrow>
     length (levels a) = nat (CritAlert + 1) \<and>
     (if UseFlapping (conf a)
      then 2 \<le> length (history a) \<and> 0 \<le> hIdx a \<and> hIdx a < int (length (history a))
      else \<not> flapping a)"

lemma levelsLoop_length:
  "length (fst (snd (levelsLoop E flds tags l ses level))) = length ses"
proof (induction ses arbitrary: l level)
  case Nil
  show ?case by simp
next
  case (Cons x ses)
  show ?case
  proof (cases x)
    case None
    then show ?thesis using Cons[of "l + 1" level] by (auto split: prod.splits)
  next
    case (Some se)
    then show ?thesis using Cons[of "l + 1" l]
      by (auto split: prod.splits option.splits)
  qed
qed

lemma levelsLoop_range:
  "fst (levelsLoop E flds tags l ses level) = level \<or>
   (l \<le> fst (levelsLoop E flds tags l ses level) \<and>
    fst (levelsLoop E flds tags l ses level) < l + int (length ses))"
proof (induction ses arbitrary: l level)
  case Nil
  show ?case by simp
next
  case (Cons x ses)
  show ?case
  proof (cases x)
    case None
    then show ?thesis using Cons[of "l + 1" level] by (auto split: prod.splits)
  next
    case (Some se)
    then show ?thesis using Cons[of "l + 1" l]
      by (auto split: prod.splits option.splits)
  qed
qed

lemma determineLevel_frame:
  "determineLevel E a flds tags = (l, a1) \<Longrightarrow>
     conf a1 = conf a \<and> handlers a1 = handlers a \<and> history a1 = history a \<and>
     hIdx a1 = hIdx a \<and> flapping a1 = flapping a \<and> length (levels a1) = length (levels a)"
  using levelsLoop_length[of E flds tags 0 "levels a" NoAlert]
  by (auto simp: determineLevel_def split: prod.splits)

lemma determineLevel_range:
  "determineLevel E a flds tags = (l, a1) \<Longrightarrow>
     l = NoAlert \<or> (0 \<le> l \<and> l < int (length (levels a)))"
  using levelsLoop_range[of E flds tags 0 "levels a" NoAlert]
  by (auto simp: determineLevel_def split: prod.splits)

lemma determineLevel_inv:
  "alertInv a \<Longrightarrow> determineLevel E a flds tags = (l, a1) \<Longrightarrow> alertInv a1"
  by (drule determineLevel_frame) (simp add: alertInv_def)


lemma updateFlapping_inv:
  assumes "alertInv a" "UseFlapping (conf a)"
  shows "\<exists>a1. updateFlapping rnd a level = Inr a1 \<and> alertInv a1 \<and> conf a1 = conf a \<and>
           handlers a1 = handlers a \<and> levels a1 = levels a"
proof -
  from assms have h: "2 \<le> length (history a)" "0 \<le> hIdx a" "hIdx a < int (length (history a))"
    and lv: "length (levels a) = nat (CritAlert + 1)"
    by (simp_all add: alertInv_def)
  have n: "0 < int (length (history a))" using h(1) by linarith
  let ?a2 = "a\<lparr>history := (history a)[nat (hIdx a) := level],
                hIdx := (hIdx a + 1) mod int (length (history a))\<rparr>"
  have inv2: "alertInv (?a2\<lparr>flapping := f\<rparr>)" for f
    using assms(2) h(1) lv pos_mod_sign[OF n] pos_mod_bound[OF n]
    by (simp add: alertInv_def)
  have "updateFlapping rnd a level = Inr (?a2\<lparr>flapping := True\<rparr>) \<or>
        updateFlapping rnd a level = Inr (?a2\<lparr>flapping := False\<rparr>)"
    using h(2,3) by (cases "flapping a") (simp_all add: updateFlapping_def Let_def)
  then show ?thesis
    using inv2 by auto
qed

lemma parseLevel_length:
  "parseLevel ParseForType src l lvls = Inr lvls' \<Longrightarrow> length lvls' = length lvls"
  by (auto simp: parseLevel_def split: if_splits sum.splits)


lemma newAlertNode_Inr:
  assumes "newAlertNode ParseForType n = Inr a"
  shows "conf a = n \<and> length (levels a) = nat (CritAlert + 1) \<and> hIdx a = 0 \<and> \<not> flapping a \<and>
         (if UseFlapping n
          then history a = replicate (nat (if History n = 0 then defaultFlapHistory else History n)) NoAlert \<and>
               2 \<le> (if History n = 0 then defaultFlapHistory else History n) \<and>
               FlapLow n \<le> 1 \<and> FlapHigh n \<le> 1
          else history a = [])"
proof -
  let ?l0 = "replicate (nat (CritAlert + 1)) None :: 'a option list"
  obtain l1 where 1: "parseLevel ParseForType (Info n) InfoAlert ?l0 = Inr l1"
    using assms by (cases "parseLevel ParseForType (Info n) InfoAlert ?l0")
      (simp_all add: newAlertNode_def Let_def)
  obtain l2 where 2: "parseLevel ParseForType (Warn n) WarnAlert l1 = Inr l2"
    using assms 1 by (cases "parseLevel ParseForType (Warn n) WarnAlert l1")
      (simp_all add: newAlertNode_def Let_def)
  obtain l3 where 3: "parseLevel ParseForType (Crit n) CritAlert l2 = Inr l3"
    using assms 1 2 by (cases "parseLevel ParseForType (Crit n) CritAlert l2")
      (simp_all add: newAlertNode_def Let_def)
  have len: "length l3 = nat (CritAlert + 1)"
    using parseLevel_length[OF 1] parseLevel_length[OF 2] parseLevel_length[OF 3] by simp
  show ?thesis
  proof (cases "UseFlapping n")
    case False
    with assms 1 2 3 have "a = \<lparr>conf = n,
        handlers = (if From n \<noteq> [] \<and> length (ToList n) \<noteq> 0
                    then (if Post n \<noteq> [] then [] @ [handlePost] else []) @ [handleEmail]
                    else (if Post n \<noteq> [] then [] @ [handlePost] else [])),
        levels = l3, history = [], hIdx = 0, flapping = False, logger = []\<rparr>"
      by (simp add: newAlertNode_def Let_def)
    with False len show ?thesis by simp
  next
    case True
    let ?h = "if History n = 0 then defaultFlapHistory else History n"
    from assms 1 2 3 True have h2: "\<not> ?h < 2"
      by (auto simp: newAlertNode_def Let_def split: if_splits)
    from assms 1 2 3 True h2 have th: "\<not> (FlapLow n > 1 \<or> FlapHigh n > 1)"
      by (auto simp: newAlertNode_def Let_def split: if_splits)
    from assms 1 2 3 True h2 th have "a = \<lparr>conf = n,
        handlers = (if From n \<noteq> [] \<and> length (ToList n) \<noteq> 0
                    then (if Post n \<noteq> [] then [] @ [handlePost] else []) @ [handleEmail]
                    else (if Post n \<noteq> [] then [] @ [handlePost] else [])),
        levels = l3, history = replicate (nat ?h) NoAlert, hIdx = 0, flapping = False,
        logger = []\<rparr>"
      by (auto simp: newAlertNode_def Let_def split: if_splits)
    with True len h2 th show ?thesis by (simp split: if_splits)
  qed
qed

lemma newAlertNode_inv:
  assumes "newAlertNode ParseForType n = Inr a"
  shows "alertInv a"
  using newAlertNode_Inr[OF assms]
  by (auto simp: alertInv_def defaultFlapHistory_def split: if_splits)


lemma level_names:
  "l > NoAlert \<Longrightarrow> l < int (nat (CritAlert + 1)) \<Longrightarrow>
   AlertLevel_String l \<in> {Inr ''INFO'', Inr ''WARNING'', Inr ''CRITICAL''}"
  by (auto simp: AlertLevel_String_def AlertLevel_defs)

text \<open>
  Claim C3. For a constructed node in stream mode and a point \<open>p\<close>: the level \<open>l\<close> is
  computed first; with flap detection the flap state is then updated with \<open>l\<close>
  (without it the node is left as the classification left it); if the node is flapping
  afterwards no handler is called; otherwise handlers are called if and only if
  \<open>l > NoAlert\<close>, each configured handler once and in order, with level \<open>l\<close> and the
  result of the batch that holds exactly this point (its name, group, tags, time and
  fields). Every call carries a level other than \<open>NoAlert\<close>, whose text is one of
  \<open>INFO\<close>, \<open>WARNING\<close>, \<open>CRITICAL\<close>.
\<close>

theorem alertPoint_stream:
  assumes "alertInv a" "determineLevel E a (Point_Fields p) (Point_Tags p) = (l, a1)"
  shows "\<exists>a2 calls.
     alertPoint E BatchToRow rnd a p = Inr (a2, calls) \<and>
     (if UseFlapping (conf a) then updateFlapping rnd a1 l = Inr a2 else a2 = a1) \<and>
     calls =
       (if flapping a2 then []
        else if l > NoAlert then
          map (\<lambda>h. (h, \<lparr>Level = l,
                         Data = \<lparr>Series = [BatchToRow
                           \<lparr>Batch_Name = Point_Name p, Batch_Group = Point_Group p,
                            Batch_Tags = Point_Tags p,
                            Batch_Points = [\<lparr>TF_Time = Point_Time p,
                                             TF_Fields = Point_Fields p\<rparr>]\<rparr>]\<rparr>\<rparr>))
              (handlers a)
        else []) \<and>
     (\<forall>c \<in> set calls.
        Level (snd c) \<noteq> NoAlert \<and>
        MarshalText (Level (snd c)) \<in> {Inr ''INFO'', Inr ''WARNING'', Inr ''CRITICAL''})"
proof -
  note fr = determineLevel_frame[OF assms(2)]
  have inv1: "alertInv a1" using determineLevel_inv[OF assms] .
  have names: "l > NoAlert \<Longrightarrow>
      AlertLevel_String l \<in> {Inr ''INFO'', Inr ''WARNING'', Inr ''CRITICAL''}"
    using determineLevel_range[OF assms(2)] assms(1)
    by (intro level_names) (auto simp: alertInv_def)
  show ?thesis
  proof (cases "UseFlapping (conf a)")
    case False
    with assms(1) fr have nf: "\<not> flapping a1" "\<not> UseFlapping (conf a1)"
      by (simp_all add: alertInv_def)
    show ?thesis
      using False nf fr names assms(2)
      by (auto simp: alertPoint_def dispatchPoint_def callHandlers_def batchToResult_def
            MarshalText_def Let_def)
  next
    case True
    with fr have u1: "UseFlapping (conf a1)" by simp
    from updateFlapping_inv[OF inv1 u1, of _ l] obtain a2 where
      a2: "updateFlapping rnd a1 l = Inr a2" "handlers a2 = handlers a1" by blast
    show ?thesis
      using True u1 a2 fr names assms(2)
      by (auto simp: alertPoint_def dispatchPoint_def callHandlers_def batchToResult_def
            MarshalText_def Let_def)
  qed
qed


subsection \<open>Batches\<close>

text \<open>
  The levels of a sequence of points examined in order, each predicate evaluation
  starting from the state the previous one left, and the node after the last one.
\<close>

fun examine ::
  "('se, 'f, 't) evaluator \<Rightarrow> 'se AlertNode \<Rightarrow> 't \<Rightarrow> 'f TimeFields list
     \<Rightarrow> AlertLevel list \<times> 'se AlertNode" where
  "examine E a tags [] = ([], a)"
| "examine E a tags (p # ps) =
     (case determineLevel E a (TF_Fields p) tags of
        (l, a1) \<Rightarrow> (case examine E a1 tags ps of (ls, a2) \<Rightarrow> (l # ls, a2)))"

lemma examine_inv:
  "alertInv a \<Longrightarrow> examine E a tags ps = (ls, a1) \<Longrightarrow>
     alertInv a1 \<and> conf a1 = conf a \<and> handlers a1 = handlers a"
proof (induction ps arbitrary: a ls)
  case Nil
  then show ?case by simp
next
  case (Cons p ps)
  obtain l a' where d: "determineLevel E a (TF_Fields p) tags = (l, a')"
    by (cases "determineLevel E a (TF_Fields p) tags")
  obtain ls' where e: "examine E a' tags ps = (ls', a1)"
    using Cons.prems(2) d by (auto split: prod.splits)
  from Cons.IH[OF determineLevel_inv[OF Cons.prems(1) d] e] determineLevel_frame[OF d]
  show ?case by simp
qed

lemma walkPoints_quiet_prefix:
  "examine E a (Batch_Tags b) pre = (ls, a1) \<Longrightarrow> \<forall>x\<in>set ls. \<not> x > NoAlert \<Longrightarrow>
   walkPoints E BatchToRow rnd a b (pre @ rest) = walkPoints E BatchToRow rnd a1 b rest"
proof (induction pre arbitrary: a ls)
  case Nil
  then show ?case by simp
next
  case (Cons p pre)
  obtain l a' where d: "determineLevel E a (TF_Fields p) (Batch_Tags b) = (l, a')"
    by (cases "determineLevel E a (TF_Fields p) (Batch_Tags b)")
  obtain ls' where e: "examine E a' (Batch_Tags b) pre = (ls', a1)" and ls: "ls = l # ls'"
    using Cons.prems(1) d by (auto split: prod.splits)
  from Cons.prems(2) ls have q: "\<not> l > NoAlert" "\<forall>x\<in>set ls'. \<not> x > NoAlert" by simp_all
  from Cons.IH[OF e q(2)] d q(1) show ?case by simp
qed

text \<open>
  Claim C4. For a constructed node in batch mode and a batch \<open>b\<close>. If \<open>p\<close> is the first
  point whose level \<open>l\<close> is greater than \<open>NoAlert\<close> (the points \<open>pre\<close> before it,
  examined in order, all have levels that are not), then with flap detection the flap
  state is updated once, with \<open>l\<close>, and if the node is flapping afterwards no handler
  is called; otherwise every handler is called once with level \<open>l\<close> and the result of
  the entire batch. The points \<open>post\<close> after \<open>p\<close> are not examined and do not touch the
  flap state. If no point of the batch has a level greater than \<open>NoAlert\<close>, no handler
  is called and, with flap detection, the flap state is updated once with \<open>NoAlert\<close>.
\<close>

theorem alertBatch_first_trigger:
  assumes "alertInv a"
  shows
  "(\<forall>pre p post ls a1 l a2.
      Batch_Points b = pre @ p # post \<and>
      examine E a (Batch_Tags b) pre = (ls, a1) \<and> (\<forall>x\<in>set ls. \<not> x > NoAlert) \<and>
      determineLevel E a1 (TF_Fields p) (Batch_Tags b) = (l, a2) \<and> l > NoAlert \<longrightarrow>
      (\<exists>a3. (if UseFlapping (conf a) then updateFlapping rnd a2 l = Inr a3 else a3 = a2) \<and>
            alertBatch E BatchToRow rnd a b =
              Inr (a3, if flapping a3 then []
                       else map (\<lambda>h. (h, \<lparr>Level = l, Data = \<lparr>Series = [BatchToRow b]\<rparr>\<rparr>))
                              (handlers a)))) \<and>
   (\<forall>ls a1.
      examine E a (Batch_Tags b) (Batch_Points b) = (ls, a1) \<and> (\<forall>x\<in>set ls. \<not> x > NoAlert) \<longrightarrow>
      (\<exists>a2. (if UseFlapping (conf a) then updateFlapping rnd a1 NoAlert = Inr a2 else a2 = a1) \<and>
            alertBatch E BatchToRow rnd a b = Inr (a2, [])))"
proof (intro conjI allI impI)
  fix pre p post ls a1 l a2
  assume h: "Batch_Points b = pre @ p # post \<and>
      examine E a (Batch_Tags b) pre = (ls, a1) \<and> (\<forall>x\<in>set ls. \<not> x > NoAlert) \<and>
      determineLevel E a1 (TF_Fields p) (Batch_Tags b) = (l, a2) \<and> l > NoAlert"
  then have pts: "Batch_Points b = pre @ p # post"
    and ex: "examine E a (Batch_Tags b) pre = (ls, a1)" and q: "\<forall>x\<in>set ls. \<not> x > NoAlert"
    and d: "determineLevel E a1 (TF_Fields p) (Batch_Tags b) = (l, a2)" and l: "l > NoAlert"
    by simp_all
  note i1 = examine_inv[OF assms ex]
  note fr = determineLevel_frame[OF d]
  have inv2: "alertInv a2" using determineLevel_inv[OF _ d] i1 by simp
  have w: "walkPoints E BatchToRow rnd a b (Batch_Points b) = walkPoints E BatchToRow rnd a1 b (p # post)"
    unfolding pts by (rule walkPoints_quiet_prefix[OF ex q])
  show "\<exists>a3. (if UseFlapping (conf a) then updateFlapping rnd a2 l = Inr a3 else a3 = a2) \<and>
            alertBatch E BatchToRow rnd a b =
              Inr (a3, if flapping a3 then []
                       else map (\<lambda>h. (h, \<lparr>Level = l, Data = \<lparr>Series = [BatchToRow b]\<rparr>\<rparr>))
                              (handlers a))"
  proof (cases "UseFlapping (conf a)")
    case False
    with i1 fr inv2 have nf: "\<not> UseFlapping (conf a2)" "\<not> flapping a2"
      by (simp_all add: alertInv_def)
    show ?thesis
      using False nf d l i1 fr
      by (simp add: alertBatch_def w callHandlers_def batchToResult_def)
  next
    case True
    with i1 fr have u2: "UseFlapping (conf a2)" by simp
    from updateFlapping_inv[OF inv2 u2, of _ l] obtain a3 where
      a3: "updateFlapping rnd a2 l = Inr a3" "handlers a3 = handlers a2" by blast
    show ?thesis
      using True u2 a3 d l i1 fr
      by (auto simp: alertBatch_def w callHandlers_def batchToResult_def)
  qed
next
  fix ls a1
  assume h: "examine E a (Batch_Tags b) (Batch_Points b) = (ls, a1) \<and> (\<forall>x\<in>set ls. \<not> x > NoAlert)"
  then have ex: "examine E a (Batch_Tags b) (Batch_Points b) = (ls, a1)"
    and q: "\<forall>x\<in>set ls. \<not> x > NoAlert" by simp_all
  note i1 = examine_inv[OF assms ex]
  have w: "walkPoints E BatchToRow rnd a b (Batch_Points b) = Inr (a1, [], False)"
    using walkPoints_quiet_prefix[OF ex q, of BatchToRow rnd "[]"] by simp
  show "\<exists>a2. (if UseFlapping (conf a) then updateFlapping rnd a1 NoAlert = Inr a2 else a2 = a1) \<and>
            alertBatch E BatchToRow rnd a b = Inr (a2, [])"
  proof (cases "UseFlapping (conf a)")
    case False
    with i1 show ?thesis by (simp add: alertBatch_def w)
  next
    case True
    with i1 have u1: "UseFlapping (conf a1)" by simp
    from updateFlapping_inv[OF _ u1, of _ NoAlert] i1 obtain a2 where
      "updateFlapping rnd a1 NoAlert = Inr a2" by blast
    with True u1 show ?thesis by (simp add: alertBatch_def w)
  qed
qed


subsection \<open>The run loop keeps the invariant\<close>

text \<open>
  A constructed node never panics in \<open>runAlert\<close>, and the invariant holds again after
  every point and every batch: the two claims above apply to each of them in turn.
\<close>

lemma alertPoint_inv:
  assumes "alertInv a"
  shows "\<exists>a' calls. alertPoint E BatchToRow rnd a p = Inr (a', calls) \<and> alertInv a'"
proof -
  obtain l a1 where d: "determineLevel E a (Point_Fields p) (Point_Tags p) = (l, a1)"
    by (cases "determineLevel E a (Point_Fields p) (Point_Tags p)")
  have inv1: "alertInv a1" using determineLevel_inv[OF assms d] .
  show ?thesis
  proof (cases "UseFlapping (conf a1)")
    case False
    with d inv1 show ?thesis by (simp add: alertPoint_def)
  next
    case True
    from updateFlapping_inv[OF inv1 True, of _ l] obtain a2 where
      "updateFlapping rnd a1 l = Inr a2" "alertInv a2" by blast
    with d True show ?thesis by (simp add: alertPoint_def)
  qed
qed

lemma walkPoints_inv:
  "alertInv a \<Longrightarrow>
   \<exists>a' calls triggered. walkPoints E BatchToRow rnd a b ps = Inr (a', calls, triggered) \<and>
      alertInv a' \<and> conf a' = conf a"
proof (induction ps arbitrary: a)
  case Nil
  then show ?case by auto
next
  case (Cons p ps)
  obtain l a1 where d: "determineLevel E a (TF_Fields p) (Batch_Tags b) = (l, a1)"
    by (cases "determineLevel E a (TF_Fields p) (Batch_Tags b)")
  have inv1: "alertInv a1" using determineLevel_inv[OF Cons.prems d] .
  have c1: "conf a1 = conf a" using determineLevel_frame[OF d] by simp
  show ?case
  proof (cases "l > NoAlert")
    case False
    with d Cons.IH[OF inv1] c1 show ?thesis by auto
  next
    case True
    show ?thesis
    proof (cases "UseFlapping (conf a1)")
      case False
      with d inv1 c1 True show ?thesis by auto
    next
      case u: True
      from updateFlapping_inv[OF inv1 u, of _ l] obtain a2 where
        "updateFlapping rnd a1 l = Inr a2" "alertInv a2" "conf a2 = conf a1" by blast
      with d True u c1 show ?thesis by auto
    qed
  qed
qed

lemma alertBatch_inv:
  assumes "alertInv a"
  shows "\<exists>a' calls. alertBatch E BatchToRow rnd a b = Inr (a', calls) \<and> alertInv a'"
proof -
  from walkPoints_inv[OF assms, of E BatchToRow rnd b "Batch_Points b"] obtain a1 calls triggered where
    w: "walkPoints E BatchToRow rnd a b (Batch_Points b) = Inr (a1, calls, triggered)"
    and inv1: "alertInv a1" by blast
  show ?thesis
  proof (cases "\<not> triggered \<and> UseFlapping (conf a1)")
    case False
    with w inv1 show ?thesis by (auto simp: alertBatch_def)
  next
    case True
    then have u: "UseFlapping (conf a1)" by simp
    from updateFlapping_inv[OF inv1 u, of _ NoAlert] obtain a2 where
      "updateFlapping rnd a1 NoAlert = Inr a2" "alertInv a2" by blast
    with w True show ?thesis by (simp add: alertBatch_def)
  qed
qed

lemma pointsLoop_inv:
  "alertInv a \<Longrightarrow> \<exists>a' calls. pointsLoop E BatchToRow rnd a ps = Inr (a', calls) \<and> alertInv a'"
proof (induction ps arbitrary: a)
  case Nil
  then show ?case by simp
next
  case (Cons p ps)
  from alertPoint_inv[OF Cons.prems, of E BatchToRow rnd p] obtain a1 calls where
    1: "alertPoint E BatchToRow rnd a p = Inr (a1, calls)" "alertInv a1" by blast
  from Cons.IH[OF 1(2)] obtain a2 calls' where
    "pointsLoop E BatchToRow rnd a1 ps = Inr (a2, calls')" "alertInv a2" by blast
  with 1 show ?case by simp
qed

lemma batchesLoop_inv:
  "alertInv a \<Longrightarrow> \<exists>a' calls. batchesLoop E BatchToRow rnd a bs = Inr (a', calls) \<and> alertInv a'"
proof (induction bs arbitrary: a)
  case Nil
  then show ?case by simp
next
  case (Cons b bs)
  from alertBatch_inv[OF Cons.prems, of E BatchToRow rnd b] obtain a1 calls where
    1: "alertBatch E BatchToRow rnd a b = Inr (a1, calls)" "alertInv a1" by blast
  from Cons.IH[OF 1(2)] obtain a2 calls' where
    "batchesLoop E BatchToRow rnd a1 bs = Inr (a2, calls')" "alertInv a2" by blast
  with 1 show ?case by simp
qed

lemma runAlert_returns:
  "newAlertNode ParseForType n = Inr a \<Longrightarrow>
   \<exists>a' calls. runAlert E BatchToRow rnd a ins0 = Inr (a', calls) \<and> alertInv a'"
  using pointsLoop_inv[OF newAlertNode_inv] batchesLoop_inv[OF newAlertNode_inv]
  by (cases ins0) (auto simp: runAlert_def)

subsection \<open>Concrete runs\<close>

definition examplePoint :: "int \<Rightarrow> (string \<rightharpoonup> int, unit) Point" where
  "examplePoint v = \<lparr>Point_Name = ''cpu'', Point_Group = ''host=a'', Point_Tags = (),
     Point_Time = 1, Point_Fields = [''value'' \<mapsto> v]\<rparr>"

definition exampleBatch :: "int list \<Rightarrow> (string \<rightharpoonup> int, unit) Batch" where
  "exampleBatch vs = \<lparr>Batch_Name = ''cpu'', Batch_Group = ''host=a'', Batch_Tags = (),
     Batch_Points = map (\<lambda>v. \<lparr>TF_Time = 1, TF_Fields = [''value'' \<mapsto> v]\<rparr>) vs\<rparr>"

lemma flapNode_inv: "alertInv (flapNode [NoAlert, NoAlert, NoAlert, NoAlert] 0 False)"
  by (simp add: alertInv_def flapNode_def flapConf_def AlertLevel_defs)

lemma flapNode_level:
  "determineLevel exampleEval (flapNode hist idx fl\<lparr>levels := [None, None, None, Some (''value'', 90, k)]\<rparr>)
     [''value'' \<mapsto> v] () =
     (if 90 < v then CritAlert else NoAlert,
      flapNode hist idx fl\<lparr>levels := [None, None, None, Some (''value'', 90, Suc k)]\<rparr>)"
  by (simp add: determineLevel_def flapNode_def exampleEval_def AlertLevel_defs)

lemma flapNode_levels [simp]:
  "flapNode hist idx fl\<lparr>levels := [None, None, None, Some (''value'', 90, 0)]\<rparr> = flapNode hist idx fl"
  by (simp add: flapNode_def)

lemma flapNode_update:
  "updateFlapping round64 (flapNode [NoAlert, NoAlert, NoAlert, NoAlert] 0 False
      \<lparr>levels := lv\<rparr>) CritAlert =
     Inr (flapNode [CritAlert, NoAlert, NoAlert, NoAlert] 1 False\<lparr>levels := lv\<rparr>)"
  "updateFlapping round64 (flapNode [NoAlert, NoAlert, NoAlert, NoAlert] 0 False
      \<lparr>levels := lv\<rparr>) NoAlert =
     Inr (flapNode [NoAlert, NoAlert, NoAlert, NoAlert] 1 False\<lparr>levels := lv\<rparr>)"
  by (simp_all add: updateFlapping_def Let_def flapScore_ringScore ringScore_first
        ringScore_quiet flapNode_def flapConf_def)

text \<open>
  Witness for C3: a node with flap detection and the predicate \<open>value > 90\<close> at Crit
  reads \<open>value = 95\<close>; the score after the update is below the high threshold, and the
  handler is called once with \<open>CRITICAL\<close> and the single-point batch.
\<close>

theorem alertPoint_stream_witness:
  "alertInv (flapNode [NoAlert, NoAlert, NoAlert, NoAlert] 0 False) \<and>
   alertPoint exampleEval (\<lambda>b. b) round64 (flapNode [NoAlert, NoAlert, NoAlert, NoAlert] 0 False)
       (examplePoint 95) =
     Inr (flapNode [CritAlert, NoAlert, NoAlert, NoAlert] 1 False
            \<lparr>levels := [None, None, None, Some (''value'', 90, 1)]\<rparr>,
          [(handlePost,
            \<lparr>Level = CritAlert,
             Data = \<lparr>Series = [\<lparr>Batch_Name = ''cpu'', Batch_Group = ''host=a'', Batch_Tags = (),
                       Batch_Points = [\<lparr>TF_Time = 1, TF_Fields = [''value'' \<mapsto> 95]\<rparr>]\<rparr>]\<rparr>\<rparr>)]) \<and>
   MarshalText CritAlert = Inr ''CRITICAL''"
proof -
  let ?n = "flapNode [NoAlert, NoAlert, NoAlert, NoAlert] 0 False"
  let ?n1 = "?n\<lparr>levels := [None, None, None, Some (''value'', 90, Suc 0)]\<rparr>"
  have d: "determineLevel exampleEval ?n (Point_Fields (examplePoint 95))
             (Point_Tags (examplePoint 95)) = (CritAlert, ?n1)"
    using flapNode_level[where k = 0 and v = 95] by (simp add: examplePoint_def)
  have u: "updateFlapping round64 ?n1 CritAlert =
      Inr (flapNode [CritAlert, NoAlert, NoAlert, NoAlert] 1 False
            \<lparr>levels := [None, None, None, Some (''value'', 90, 1)]\<rparr>)"
    by (simp add: flapNode_update)
  have c: "UseFlapping (conf ?n)" "handlers ?n = [handlePost]"
    by (simp_all add: flapNode_def flapConf_def)
  have f: "\<not> flapping (flapNode [CritAlert, NoAlert, NoAlert, NoAlert] 1 False
            \<lparr>levels := [None, None, None, Some (''value'', 90, 1)]\<rparr>)"
    by (simp add: flapNode_def)
  have m: "MarshalText CritAlert = Inr ''CRITICAL''"
    by (simp add: MarshalText_def AlertLevel_String_def AlertLevel_defs)
  from alertPoint_stream[OF flapNode_inv d, of "\<lambda>b. b" round64] obtain a2 calls where
    r: "alertPoint exampleEval (\<lambda>b. b) round64 ?n (examplePoint 95) = Inr (a2, calls)"
    and uf: "if UseFlapping (conf ?n) then updateFlapping round64 ?n1 CritAlert = Inr a2 else a2 = ?n1"
    and cs: "calls =
       (if flapping a2 then []
        else if CritAlert > NoAlert then
          map (\<lambda>h. (h, \<lparr>Level = CritAlert,
                         Data = \<lparr>Series = [
                           \<lparr>Batch_Name = Point_Name (examplePoint 95),
                            Batch_Group = Point_Group (examplePoint 95),
                            Batch_Tags = Point_Tags (examplePoint 95),
                            Batch_Points = [\<lparr>TF_Time = Point_Time (examplePoint 95),
                                             TF_Fields = Point_Fields (examplePoint 95)\<rparr>]\<rparr>]\<rparr>\<rparr>))
              (handlers ?n)
        else [])"
    by blast
  from uf c(1) u have a2: "a2 = flapNode [CritAlert, NoAlert, NoAlert, NoAlert] 1 False
            \<lparr>levels := [None, None, None, Some (''value'', 90, 1)]\<rparr>" by simp
  from cs a2 f c(2) have "calls = [(handlePost,
            \<lparr>Level = CritAlert,
             Data = \<lparr>Series = [\<lparr>Batch_Name = ''cpu'', Batch_Group = ''host=a'', Batch_Tags = (),
                       Batch_Points = [\<lparr>TF_Time = 1, TF_Fields = [''value'' \<mapsto> 95]\<rparr>]\<rparr>]\<rparr>\<rparr>)]"
    by (simp add: examplePoint_def CritAlert_def NoAlert_def)
  with r a2 flapNode_inv m show ?thesis by simp
qed


lemma flapNode_examine:
  "examine exampleEval (flapNode hist idx fl) () [\<lparr>TF_Time = 1, TF_Fields = [''value'' \<mapsto> 50]\<rparr>] =
     ([NoAlert], flapNode hist idx fl\<lparr>levels := [None, None, None, Some (''value'', 90, 1)]\<rparr>)"
  "examine exampleEval (flapNode hist idx fl) ()
     [\<lparr>TF_Time = 1, TF_Fields = [''value'' \<mapsto> 50]\<rparr>, \<lparr>TF_Time = 1, TF_Fields = [''value'' \<mapsto> 60]\<rparr>] =
     ([NoAlert, NoAlert], flapNode hist idx fl\<lparr>levels := [None, None, None, Some (''value'', 90, 2)]\<rparr>)"
  using flapNode_level[where k = 0 and v = 50 and hist = hist and idx = idx and fl = fl]
        flapNode_level[where k = 1 and v = 60 and hist = hist and idx = idx and fl = fl]
  by simp_all

text \<open>
  Witness for C4: in the batch \<open>50, 95, 99\<close> the second point triggers, the third is
  not examined (the predicate has been evaluated twice), and the whole batch is
  dispatched; in the batch \<open>50, 60\<close> nothing triggers and the flap state is updated with
  \<open>NoAlert\<close>.
\<close>

theorem alertBatch_first_trigger_witness:
  "alertInv (flapNode [NoAlert, NoAlert, NoAlert, NoAlert] 0 False) \<and>
   alertBatch exampleEval (\<lambda>b. b) round64 (flapNode [NoAlert, NoAlert, NoAlert, NoAlert] 0 False)
       (exampleBatch [50, 95, 99]) =
     Inr (flapNode [CritAlert, NoAlert, NoAlert, NoAlert] 1 False
            \<lparr>levels := [None, None, None, Some (''value'', 90, 2)]\<rparr>,
          [(handlePost, \<lparr>Level = CritAlert, Data = \<lparr>Series = [exampleBatch [50, 95, 99]]\<rparr>\<rparr>)]) \<and>
   alertBatch exampleEval (\<lambda>b. b) round64 (flapNode [NoAlert, NoAlert, NoAlert, NoAlert] 0 False)
       (exampleBatch [50, 60]) =
     Inr (flapNode [NoAlert, NoAlert, NoAlert, NoAlert] 1 False
            \<lparr>levels := [None, None, None, Some (''value'', 90, 2)]\<rparr>, [])"
proof -
  let ?n = "flapNode [NoAlert, NoAlert, NoAlert, NoAlert] 0 False"
  let ?n1 = "?n\<lparr>levels := [None, None, None, Some (''value'', 90, 1)]\<rparr>"
  let ?n2 = "?n\<lparr>levels := [None, None, None, Some (''value'', 90, 2)]\<rparr>"
  let ?b = "exampleBatch [50, 95, 99]" and ?b' = "exampleBatch [50, 60]"
  let ?p = "\<lambda>v::int. \<lparr>TF_Time = 1, TF_Fields = [''value'' \<mapsto> v]\<rparr>"
  have c: "UseFlapping (conf ?n)" "handlers ?n = [handlePost]"
    by (simp_all add: flapNode_def flapConf_def)
  have pts: "Batch_Points ?b = [?p 50] @ ?p 95 # [?p 99]" "Batch_Tags ?b = ()"
    by (simp_all add: exampleBatch_def)
  have d: "determineLevel exampleEval ?n1 (TF_Fields (?p 95)) () = (CritAlert, ?n2)"
    using flapNode_level[where k = 1 and v = 95] by simp
  have l: "CritAlert > NoAlert" by (simp add: AlertLevel_defs)
  have q: "\<forall>x\<in>set [NoAlert]. \<not> x > NoAlert" by simp
  have "\<exists>a3. (if UseFlapping (conf ?n) then updateFlapping round64 ?n2 CritAlert = Inr a3 else a3 = ?n2) \<and>
            alertBatch exampleEval (\<lambda>b. b) round64 ?n ?b =
              Inr (a3, if flapping a3 then []
                       else map (\<lambda>h. (h, \<lparr>Level = CritAlert, Data = \<lparr>Series = [?b]\<rparr>\<rparr>))
                              (handlers ?n))"
    using alertBatch_first_trigger[OF flapNode_inv, where b = ?b and E = exampleEval
        and BatchToRow = "\<lambda>b. b" and rnd = round64, THEN conjunct1, THEN spec, THEN spec, THEN spec,
        THEN spec, THEN spec, THEN spec, THEN spec,
        of "[?p 50]" "?p 95" "[?p 99]" "[NoAlert]" ?n1 CritAlert ?n2]
      pts flapNode_examine(1)[of "[NoAlert, NoAlert, NoAlert, NoAlert]" 0 False] d l q
    by simp
  then have 1: "alertBatch exampleEval (\<lambda>b. b) round64 ?n ?b =
     Inr (flapNode [CritAlert, NoAlert, NoAlert, NoAlert] 1 False
            \<lparr>levels := [None, None, None, Some (''value'', 90, 2)]\<rparr>,
          [(handlePost, \<lparr>Level = CritAlert, Data = \<lparr>Series = [?b]\<rparr>\<rparr>)])"
    using c by (auto simp: flapNode_update) (simp_all add: flapNode_def)
  have pts': "Batch_Points ?b' = [?p 50, ?p 60]" "Batch_Tags ?b' = ()"
    by (simp_all add: exampleBatch_def)
  have q': "\<forall>x\<in>set [NoAlert, NoAlert]. \<not> x > NoAlert" by simp
  have "\<exists>a2. (if UseFlapping (conf ?n) then updateFlapping round64 ?n2 NoAlert = Inr a2 else a2 = ?n2) \<and>
            alertBatch exampleEval (\<lambda>b. b) round64 ?n ?b' = Inr (a2, [])"
    using alertBatch_first_trigger[OF flapNode_inv, where b = ?b' and E = exampleEval
        and BatchToRow = "\<lambda>b. b" and rnd = round64, THEN conjunct2, THEN spec, THEN spec,
        of "[NoAlert, NoAlert]" ?n2]
      pts' flapNode_examine(2)[of "[NoAlert, NoAlert, NoAlert, NoAlert]" 0 False] q'
    by simp
  then have 2: "alertBatch exampleEval (\<lambda>b. b) round64 ?n ?b' =
     Inr (flapNode [NoAlert, NoAlert, NoAlert, NoAlert] 1 False
            \<lparr>levels := [None, None, None, Some (''value'', 90, 2)]\<rparr>, [])"
    using c by (auto simp: flapNode_update)
  from flapNode_inv 1 2 show ?thesis by simp
qed


subsection \<open>Construction and the flap thresholds\<close>

text \<open>A stand-in for \<open>expr.ParseForType\<close> that knows three predicates.\<close>

definition exampleParse :: "string \<Rightarrow> error + (string \<times> int \<times> nat)" where
  "exampleParse src =
     (if src = ''value > 10'' then Inr (''value'', 10, 0)
      else if src = ''value > 50'' then Inr (''value'', 50, 0)
      else if src = ''value > 90'' then Inr (''value'', 90, 0)
      else Inl (Err ''parse error''))"

lemma newAlertNode_rejects_threshold_above_one:
  "UseFlapping n \<Longrightarrow> FlapLow n > 1 \<or> FlapHigh n > 1 \<Longrightarrow> \<exists>e. newAlertNode ParseForType n = Inl e"
  using newAlertNode_Inr[of ParseForType n]
  by (cases "newAlertNode ParseForType n") auto

lemma newAlertNode_rejects_short_history:
  "UseFlapping n \<Longrightarrow> History n \<noteq> 0 \<Longrightarrow> History n < 2 \<Longrightarrow> \<exists>e. newAlertNode ParseForType n = Inl e"
  using newAlertNode_Inr[of ParseForType n]
  by (cases "newAlertNode ParseForType n") auto

lemma newAlertNode_default_history:
  "UseFlapping n \<Longrightarrow> History n = 0 \<Longrightarrow> newAlertNode ParseForType n = Inr a \<Longrightarrow>
     history a = replicate 21 NoAlert"
  using newAlertNode_Inr[of ParseForType n a]
  by (simp add: defaultFlapHistory_def)

lemma levels_slots:
  "(replicate 4 None)[Suc 0 := x, 2 := y, 3 := z] = [None, x, y, z]"
  by (simp add: eval_nat_numeral)

text \<open>
  Claim C6. Construction rejects a threshold above 1 and a history below 2, and uses 21
  for an unset history (lemmas \<open>newAlertNode_rejects_threshold_above_one\<close>,
  \<open>newAlertNode_rejects_short_history\<close>, \<open>newAlertNode_default_history\<close>). It does not
  reject a negative
  threshold: the test is \<open>n.FlapLow > 1 || n.FlapHigh > 1\<close> only, although the message
  of that very error says the thresholds "should be between 0 and 1". With
  \<open>FlapLow = -0.5\<close> the node is built.
\<close>

theorem newAlertNode_accepts_negative_threshold:
  "newAlertNode exampleParse
     (exampleConf\<lparr>UseFlapping := True, FlapLow := - (1 / 2), FlapHigh := 1 / 2\<rparr>) =
   Inr \<lparr>conf = exampleConf\<lparr>UseFlapping := True, FlapLow := - (1 / 2), FlapHigh := 1 / 2\<rparr>,
        handlers = [handlePost],
        levels = [None, Some (''value'', 10, 0), Some (''value'', 50, 0), Some (''value'', 90, 0)],
        history = replicate 21 NoAlert, hIdx = 0, flapping = False, logger = []\<rparr>"
  by (simp add: newAlertNode_def parseLevel_def exampleParse_def exampleConf_def Let_def
        defaultFlapHistory_def AlertLevel_defs levels_slots)

section \<open>Executing task\<close>

text \<open>A Go \<open>[]byte\<close>: nil, or a slice of bytes.\<close>

datatype bytes = nil_bytes | Bytes "8 word list"

text \<open>
  A runtime node, as far as the task sees it through the \<open>Node\<close> interface: its name,
  the parent edges added to it (edges are numbered), the arguments of the calls of
  \<open>start\<close> made so far, and what \<open>snapshot()\<close> returns in its present state.
\<close>

record Node =
  Node_Name :: string
  Node_ins :: "nat list"
  Node_starts :: "bytes list"
  Node_snapshot :: "error + bytes"

definition addParentEdge :: "Node \<Rightarrow> nat \<Rightarrow> Node" where
  "addParentEdge n e = n\<lparr>Node_ins := Node_ins n @ [e]\<rparr>"

definition Node_start :: "Node \<Rightarrow> bytes \<Rightarrow> Node" where
  "Node_start n snapshot = n\<lparr>Node_starts := Node_starts n @ [snapshot]\<rparr>"

text \<open>
  \<open>Task\<close>, \<open>TaskSnapshot\<close> and \<open>ExecutingTask\<close> with the fields that \<open>start\<close> and
  \<open>Snapshot\<close> read. \<open>link\<close> makes the first node the source, so \<open>et.source\<close> is the
  head of \<open>nodes\<close>. \<open>snapshotter\<close> records that the snapshot worker has been
  launched.
\<close>

record Task =
  Task_Name :: string
  SnapshotInterval :: int

record TaskSnapshot =
  NodeSnapshots :: "string \<rightharpoonup> bytes"

record ExecutingTask =
  Task :: Task
  nodes :: "Node list"
  snapshotter :: bool

text \<open>Indexing a Go map: the zero value, nil, for a missing key.\<close>

definition mapIndex :: "(string \<rightharpoonup> bytes) \<Rightarrow> string \<Rightarrow> bytes" where
  "mapIndex m k = (case m k of None \<Rightarrow> nil_bytes | Some v \<Rightarrow> v)"

text \<open>
  \<open>walk\<close> applies \<open>f\<close> to the nodes in order and stops at the first error. The
  closure \<open>f\<close> may change the node and the variables it captures, here the state
  \<open>'s\<close>.
\<close>

fun walk :: "('n \<Rightarrow> 's \<Rightarrow> error + 'n \<times> 's) \<Rightarrow> 'n list \<Rightarrow> 's \<Rightarrow> error + 'n list \<times> 's" where
  "walk f [] s = Inr ([], s)"
| "walk f (n # ns) s =
     (case f n s of
        Inl err \<Rightarrow> Inl err
      | Inr (n', s') \<Rightarrow>
          (case walk f ns s' of
             Inl err \<Rightarrow> Inl err
           | Inr (ns', s'') \<Rightarrow> Inr (n' # ns', s'')))"

text \<open>
  \<open>for _, in := range ins { et.source.addParentEdge(in) }\<close>; a task without nodes has
  no source to call.
\<close>

fun addParentEdges :: "Node list \<Rightarrow> nat list \<Rightarrow> error + Node list" where
  "addParentEdges ns [] = Inr ns"
| "addParentEdges [] (e # es) = Inl (Panic ''invalid memory address or nil pointer dereference'')"
| "addParentEdges (source # ns) (e # es) = addParentEdges (addParentEdge source e # ns) es"

text \<open>
  \<open>start\<close>. A nil snapshot is \<open>None\<close>. The second walk cannot fail, so \<open>start\<close>
  returns nil whenever the edges could be attached.
\<close>

definition start :: "ExecutingTask \<Rightarrow> nat list \<Rightarrow> TaskSnapshot option \<Rightarrow> error + ExecutingTask" where
  "start et ins snapshot =
     (case addParentEdges (nodes et) ins of
        Inl err \<Rightarrow> Inl err
      | Inr ns \<Rightarrow>
          (let validSnapshot =
                 (case snapshot of
                    None \<Rightarrow> False
                  | Some snap \<Rightarrow>
                      (case walk (\<lambda>n u. case NodeSnapshots snap (Node_Name n) of
                                            None \<Rightarrow> Inl (Err ''task pipeline changed not using snapshot'')
                                          | Some v \<Rightarrow> Inr (n, u)) ns () of
                         Inl err \<Rightarrow> False
                       | Inr r \<Rightarrow> True))
           in case walk (\<lambda>n u. if validSnapshot
                                then Inr (Node_start n (mapIndex (NodeSnapshots (the snapshot)) (Node_Name n)), u)
                                else Inr (Node_start n nil_bytes, u)) ns () of
                Inl err \<Rightarrow> Inl err
              | Inr (ns', u) \<Rightarrow>
                  if SnapshotInterval (Task et) > 0
                  then Inr (et\<lparr>nodes := ns', snapshotter := True\<rparr>)
                  else Inr (et\<lparr>nodes := ns'\<rparr>)))"

text \<open>\<open>Snapshot\<close> and the closure it walks with, which fills the map.\<close>

definition snapshotNode :: "Node \<Rightarrow> (string \<rightharpoonup> bytes) \<Rightarrow> error + Node \<times> (string \<rightharpoonup> bytes)" where
  "snapshotNode n m =
     (case Node_snapshot n of
        Inl err \<Rightarrow> Inl err
      | Inr data \<Rightarrow> Inr (n, m(Node_Name n \<mapsto> data)))"

definition Snapshot :: "ExecutingTask \<Rightarrow> error + TaskSnapshot" where
  "Snapshot et =
     (case walk snapshotNode (nodes et) Map.empty of
        Inl err \<Rightarrow> Inl err
      | Inr (ns, m) \<Rightarrow> Inr \<lparr>NodeSnapshots = m\<rparr>)"

subsection \<open>Properties of start and Snapshot\<close>

lemma walk_check:
  "walk (\<lambda>n u. case m (g n) of None \<Rightarrow> Inl e | Some v \<Rightarrow> Inr (n, u)) ns () =
     (if \<forall>n\<in>set ns. g n \<in> dom m then Inr (ns, ()) else Inl e)"
  by (induction ns) (auto split: option.splits)

lemma walk_map: "walk (\<lambda>n u. Inr (f n, u)) ns s = Inr (map f ns, s)"
  by (induction ns) auto

lemma walk_map_unit: "walk (\<lambda>n u. Inr (f n, ())) ns () = Inr (map f ns, ())"
  by (induction ns) auto

lemma addParentEdges_names:
  "addParentEdges ns ins = Inr ns' \<Longrightarrow> map Node_Name ns' = map Node_Name ns"
  by (induction ns ins rule: addParentEdges.induct) (auto simp: addParentEdge_def)

lemma start_eq:
  assumes "addParentEdges (nodes et) ins = Inr ns"
  shows "start et ins snapshot =
     Inr (et\<lparr>nodes :=
              map (\<lambda>n. Node_start n
                     (case snapshot of
                        None \<Rightarrow> nil_bytes
                      | Some snap \<Rightarrow>
                          if Node_Name ` set (nodes et) \<subseteq> dom (NodeSnapshots snap)
                          then mapIndex (NodeSnapshots snap) (Node_Name n)
                          else nil_bytes)) ns,
            snapshotter := (SnapshotInterval (Task et) > 0 \<or> snapshotter et)\<rparr>)"
proof -
  have names: "Node_Name ` set ns = Node_Name ` set (nodes et)"
    using addParentEdges_names[OF assms] by (metis set_map)
  show ?thesis
  proof (cases snapshot)
    case None
    with assms show ?thesis by (simp add: start_def walk_map_unit)
  next
    case (Some snap)
    have v: "(\<forall>n\<in>set ns. Node_Name n \<in> dom (NodeSnapshots snap)) \<longleftrightarrow>
             Node_Name ` set (nodes et) \<subseteq> dom (NodeSnapshots snap)"
      unfolding names[symmetric] by blast
    show ?thesis
    proof (cases "Node_Name ` set (nodes et) \<subseteq> dom (NodeSnapshots snap)")
      case True
      with v have "\<forall>n\<in>set ns. Node_Name n \<in> dom (NodeSnapshots snap)" by simp
      with assms Some True show ?thesis
        by (simp add: start_def walk_check walk_map_unit)
    next
      case False
      with v have "\<not> (\<forall>n\<in>set ns. Node_Name n \<in> dom (NodeSnapshots snap))" by simp
      with assms Some False show ?thesis
        by (auto simp: start_def walk_check walk_map_unit)
    qed
  qed
qed


lemma walk_snapshot_Cons:
  assumes "walk snapshotNode (n # ns) m = Inr (ns', m')"
  obtains d ns1 where "Node_snapshot n = Inr d"
    "walk snapshotNode ns (m(Node_Name n \<mapsto> d)) = Inr (ns1, m')"
proof -
  from assms obtain n1 m1 ns1 where
    s: "snapshotNode n m = Inr (n1, m1)" and w: "walk snapshotNode ns m1 = Inr (ns1, m')"
    by (auto split: sum.splits)
  from s obtain d where "Node_snapshot n = Inr d" "m1 = m(Node_Name n \<mapsto> d)"
    by (cases "Node_snapshot n") (auto simp: snapshotNode_def)
  with w that show ?thesis by simp
qed

lemma walk_snapshot_frame:
  "walk snapshotNode ns m = Inr (ns', m') \<Longrightarrow> k \<notin> Node_Name ` set ns \<Longrightarrow> m' k = m k"
proof (induction ns arbitrary: m ns')
  case Nil
  then show ?case by simp
next
  case (Cons n ns)
  from Cons.prems(1) obtain d ns1 where d: "Node_snapshot n = Inr d"
    and w: "walk snapshotNode ns (m(Node_Name n \<mapsto> d)) = Inr (ns1, m')"
    by (rule walk_snapshot_Cons)
  from Cons.IH[OF w] Cons.prems(2) show ?case by simp
qed

lemma walk_snapshot_dom:
  "walk snapshotNode ns m = Inr (ns', m') \<Longrightarrow> dom m' = dom m \<union> Node_Name ` set ns"
proof (induction ns arbitrary: m ns')
  case Nil
  then show ?case by simp
next
  case (Cons n ns)
  from Cons.prems(1) obtain d ns1 where d: "Node_snapshot n = Inr d"
    and w: "walk snapshotNode ns (m(Node_Name n \<mapsto> d)) = Inr (ns1, m')"
    by (rule walk_snapshot_Cons)
  from Cons.IH[OF w] show ?case by auto
qed

lemma walk_snapshot_own:
  "walk snapshotNode ns m = Inr (ns', m') \<Longrightarrow> distinct (map Node_Name ns) \<Longrightarrow> n \<in> set ns \<Longrightarrow>
     \<exists>d. Node_snapshot n = Inr d \<and> m' (Node_Name n) = Some d"
proof (induction ns arbitrary: m ns')
  case Nil
  then show ?case by simp
next
  case (Cons x ns)
  from Cons.prems(1) obtain d ns1 where d: "Node_snapshot x = Inr d"
    and w: "walk snapshotNode ns (m(Node_Name x \<mapsto> d)) = Inr (ns1, m')"
    by (rule walk_snapshot_Cons)
  show ?case
  proof (cases "n = x")
    case True
    from Cons.prems(2) have "Node_Name x \<notin> Node_Name ` set ns" by simp
    from walk_snapshot_frame[OF w this] d True show ?thesis by simp
  next
    case False
    with Cons.prems have "distinct (map Node_Name ns)" "n \<in> set ns" by simp_all
    from Cons.IH[OF w this] show ?thesis .
  qed
qed


text \<open>
  Claim C5, amended. For a task started with a non-nil snapshot (the edges being
  attached to the source): the snapshot is used, each node's \<open>start\<close> receiving the
  bytes stored under its own name, if and only if every node's name is a key of the
  snapshot's map; keys of the snapshot that name no node are ignored and do not
  invalidate it. When a name is missing, every node starts with nil. In both cases
  \<open>start\<close> returns without error.
\<close>

theorem start_uses_snapshot_iff_names_present:
  assumes "addParentEdges (nodes et) ins = Inr ns"
  shows "start et ins (Some snap) =
     Inr (et\<lparr>nodes :=
              map (\<lambda>n. Node_start n
                     (if Node_Name ` set (nodes et) \<subseteq> dom (NodeSnapshots snap)
                      then mapIndex (NodeSnapshots snap) (Node_Name n)
                      else nil_bytes)) ns,
            snapshotter := (SnapshotInterval (Task et) > 0 \<or> snapshotter et)\<rparr>)"
  using start_eq[OF assms, of "Some snap"] by simp

text \<open>
  Claim C10. When \<open>Snapshot\<close> succeeds, the keys of the map it returns are exactly the
  names of the task's nodes. Hence \<open>start\<close> on any task with the same node names
  judges the snapshot valid and hands every node the bytes stored under its name. With
  unique node names (the invariant of a pipeline) the map has one entry per node, and
  the bytes stored under a node's name are the ones that node's \<open>snapshot()\<close>
  returned.
\<close>

theorem Snapshot_keys_are_node_names:
  assumes "Snapshot et = Inr snap"
  shows "dom (NodeSnapshots snap) = Node_Name ` set (nodes et) \<and>
     (\<forall>et' ins ns.
        Node_Name ` set (nodes et') = Node_Name ` set (nodes et) \<and>
        addParentEdges (nodes et') ins = Inr ns \<longrightarrow>
        start et' ins (Some snap) =
          Inr (et'\<lparr>nodes := map (\<lambda>n. Node_start n (the (NodeSnapshots snap (Node_Name n)))) ns,
                 snapshotter := (SnapshotInterval (Task et') > 0 \<or> snapshotter et')\<rparr>)) \<and>
     (distinct (map Node_Name (nodes et)) \<longrightarrow>
        card (dom (NodeSnapshots snap)) = length (nodes et) \<and>
        (\<forall>n\<in>set (nodes et). Node_snapshot n = Inr (the (NodeSnapshots snap (Node_Name n)))))"
proof -
  from assms obtain ns' where w: "walk snapshotNode (nodes et) Map.empty = Inr (ns', NodeSnapshots snap)"
    by (auto simp: Snapshot_def split: sum.splits)
  have dom: "dom (NodeSnapshots snap) = Node_Name ` set (nodes et)"
    using walk_snapshot_dom[OF w] by simp
  have st: "start et' ins (Some snap) =
          Inr (et'\<lparr>nodes := map (\<lambda>n. Node_start n (the (NodeSnapshots snap (Node_Name n)))) ns,
                 snapshotter := (SnapshotInterval (Task et') > 0 \<or> snapshotter et')\<rparr>)"
    if h: "Node_Name ` set (nodes et') = Node_Name ` set (nodes et) \<and>
           addParentEdges (nodes et') ins = Inr ns" for et' ins ns
  proof -
    from h have a: "addParentEdges (nodes et') ins = Inr ns"
      and sub: "Node_Name ` set (nodes et') \<subseteq> dom (NodeSnapshots snap)"
      using dom by simp_all
    have "Node_Name ` set ns = Node_Name ` set (nodes et')"
      using addParentEdges_names[OF a] by (metis set_map)
    with sub have "\<forall>n\<in>set ns. Node_Name n \<in> dom (NodeSnapshots snap)" by blast
    then have "map (\<lambda>n. Node_start n (mapIndex (NodeSnapshots snap) (Node_Name n))) ns =
               map (\<lambda>n. Node_start n (the (NodeSnapshots snap (Node_Name n)))) ns"
      by (auto simp: mapIndex_def)
    with start_eq[OF a, of "Some snap"] sub show ?thesis by simp
  qed
  have own: "card (dom (NodeSnapshots snap)) = length (nodes et) \<and>
        (\<forall>n\<in>set (nodes et). Node_snapshot n = Inr (the (NodeSnapshots snap (Node_Name n))))"
    if d: "distinct (map Node_Name (nodes et))"
  proof
    show "card (dom (NodeSnapshots snap)) = length (nodes et)"
      using distinct_card[OF d] dom by simp
    show "\<forall>n\<in>set (nodes et). Node_snapshot n = Inr (the (NodeSnapshots snap (Node_Name n)))"
      using walk_snapshot_own[OF w d] by fastforce
  qed
  from dom st own show ?thesis by blast
qed

subsection \<open>Concrete tasks\<close>

definition exampleTaskNode :: "string \<Rightarrow> 8 word list \<Rightarrow> Node" where
  "exampleTaskNode name state =
     \<lparr>Node_Name = name, Node_ins = [], Node_starts = [], Node_snapshot = Inr (Bytes state)\<rparr>"

definition exampleTask :: "Node list \<Rightarrow> ExecutingTask" where
  "exampleTask ns = \<lparr>Task = \<lparr>Task_Name = ''cpu_alert'', SnapshotInterval = 0\<rparr>,
     nodes = ns, snapshotter = False\<rparr>"

text \<open>
  Claim C5 as stated fails: a snapshot with the keys \<open>stream0\<close> and \<open>alert1\<close> given to
  a task whose only node is \<open>stream0\<close>. The key set differs from the set of node names,
  and the snapshot is used all the same: the node starts with its stored bytes.
\<close>

theorem extra_key_snapshot_counterexample:
  "dom (NodeSnapshots \<lparr>NodeSnapshots = [''stream0'' \<mapsto> Bytes [1], ''alert1'' \<mapsto> Bytes [2, 3]]\<rparr>)
     \<noteq> Node_Name ` set (nodes (exampleTask [exampleTaskNode ''stream0'' [1]])) \<and>
   start (exampleTask [exampleTaskNode ''stream0'' [1]]) [7]
     (Some \<lparr>NodeSnapshots = [''stream0'' \<mapsto> Bytes [1], ''alert1'' \<mapsto> Bytes [2, 3]]\<rparr>) =
     Inr (exampleTask [(exampleTaskNode ''stream0'' [1])
            \<lparr>Node_ins := [7], Node_starts := [Bytes [1]]\<rparr>])"
  by (auto simp: start_def exampleTask_def exampleTaskNode_def addParentEdge_def Node_start_def
        mapIndex_def)

text \<open>
  Witness for the amended C5: the snapshot lacks the key \<open>alert1\<close>, both nodes start
  with nil and \<open>start\<close> succeeds.
\<close>

theorem start_uses_snapshot_iff_names_present_witness:
  "addParentEdges (nodes (exampleTask [exampleTaskNode ''stream0'' [1], exampleTaskNode ''alert1'' []])) [7] =
     Inr [(exampleTaskNode ''stream0'' [1])\<lparr>Node_ins := [7]\<rparr>, exampleTaskNode ''alert1'' []] \<and>
   start (exampleTask [exampleTaskNode ''stream0'' [1], exampleTaskNode ''alert1'' []]) [7]
     (Some \<lparr>NodeSnapshots = [''stream0'' \<mapsto> Bytes [1]]\<rparr>) =
     Inr (exampleTask [(exampleTaskNode ''stream0'' [1])\<lparr>Node_ins := [7], Node_starts := [nil_bytes]\<rparr>,
                       (exampleTaskNode ''alert1'' [])\<lparr>Node_starts := [nil_bytes]\<rparr>])"
proof -
  have a: "addParentEdges (nodes (exampleTask [exampleTaskNode ''stream0'' [1], exampleTaskNode ''alert1'' []])) [7] =
     Inr [(exampleTaskNode ''stream0'' [1])\<lparr>Node_ins := [7]\<rparr>, exampleTaskNode ''alert1'' []]"
    by (simp add: exampleTask_def exampleTaskNode_def addParentEdge_def)
  show ?thesis
    using start_uses_snapshot_iff_names_present[OF a, of "\<lparr>NodeSnapshots = [''stream0'' \<mapsto> Bytes [1]]\<rparr>"] a
    by (simp add: exampleTask_def exampleTaskNode_def Node_start_def)
qed

text \<open>Witness for C10: a snapshot of two nodes, handed back to the same task.\<close>

theorem Snapshot_keys_are_node_names_witness:
  "Snapshot (exampleTask [exampleTaskNode ''stream0'' [1], exampleTaskNode ''alert1'' [2, 3]]) =
     Inr \<lparr>NodeSnapshots = [''stream0'' \<mapsto> Bytes [1], ''alert1'' \<mapsto> Bytes [2, 3]]\<rparr> \<and>
   start (exampleTask [exampleTaskNode ''stream0'' [1], exampleTaskNode ''alert1'' [2, 3]]) []
     (Some \<lparr>NodeSnapshots = [''stream0'' \<mapsto> Bytes [1], ''alert1'' \<mapsto> Bytes [2, 3]]\<rparr>) =
     Inr (exampleTask [(exampleTaskNode ''stream0'' [1])\<lparr>Node_starts := [Bytes [1]]\<rparr>,
                       (exampleTaskNode ''alert1'' [2, 3])\<lparr>Node_starts := [Bytes [2, 3]]\<rparr>])"
proof -
  let ?et = "exampleTask [exampleTaskNode ''stream0'' [1], exampleTaskNode ''alert1'' [2, 3]]"
  let ?snap = "\<lparr>NodeSnapshots = [''stream0'' \<mapsto> Bytes [1], ''alert1'' \<mapsto> Bytes [2, 3]]\<rparr>"
  have s: "Snapshot ?et = Inr ?snap"
    by (simp add: Snapshot_def snapshotNode_def exampleTask_def exampleTaskNode_def)
  have a: "addParentEdges (nodes ?et) [] = Inr (nodes ?et)" by simp
  from Snapshot_keys_are_node_names[OF s, THEN conjunct2, THEN conjunct1, THEN spec, THEN spec,
      THEN spec, of ?et "[]" "nodes ?et"] a
  have "start ?et [] (Some ?snap) =
          Inr (?et\<lparr>nodes := map (\<lambda>n. Node_start n (the (NodeSnapshots ?snap (Node_Name n)))) (nodes ?et),
                 snapshotter := (SnapshotInterval (Task ?et) > 0 \<or> snapshotter ?et)\<rparr>)"
    by simp
  with s show ?thesis
    by (simp add: exampleTask_def exampleTaskNode_def Node_start_def)
qed

section \<open>The lexer of the DSL (package tick)\<close>

text \<open>
  The lexer itself is not among the sources at hand; its test, \<open>tick/lex_test.go\<close>, is.
  The definitions of this section follow the design's description of the lexer (section
  4.1), and the lemmas \<open>TestLexer_01\<close> to \<open>TestLexer_58\<close> below check them against every
  case of the test.
\<close>

text \<open>
  Modelled from the spec: the token kinds of the lexer (its source file is missing), under
  the names the test uses.
\<close>

datatype TokenKind =
    TokenEOF | TokenVar | TokenAsgn | TokenDot | TokenIdent | TokenReference
  | TokenNumber | TokenString | TokenDuration | TokenLParen | TokenRParen | TokenRegex
  | TokenNot | TokenPlus | TokenMinus | TokenMult | TokenDiv
  | TokenEqual | TokenNotEqual | TokenLess | TokenGreater | TokenLessEqual | TokenGreaterEqual
  | TokenRegexEqual | TokenRegexNotEqual
  | TokenAnd | TokenOr | TokenTrue | TokenFalse

text \<open>
  Modelled from the spec: a token \<open>(kind, position, literal)\<close>, written positionally as
  in the test.
\<close>

datatype token = Token (tokKind: TokenKind) (tokPos: nat) (tokLit: string)

text \<open>
  Modelled from the spec: the whitespace of the missing lexer: space, tab and newline.
\<close>

definition isSpace :: "char \<Rightarrow> bool" where
  "isSpace c \<longleftrightarrow> c = CHR '' '' \<or> c = CHR 0x09 \<or> c = CHR 0x0A"

text \<open>Modelled from the spec: the digits \<open>[0-9]\<close> of the missing lexer.\<close>

definition isDigit :: "char \<Rightarrow> bool" where
  "isDigit c \<longleftrightarrow> c \<in> set ''0123456789''"

text \<open>Modelled from the spec: the first character of an identifier, \<open>[A-Za-z_]\<close>.\<close>

definition isIdentStart :: "char \<Rightarrow> bool" where
  "isIdentStart c \<longleftrightarrow> c \<in> set ''ABCDEFGHIJKLMNOPQRSTUVWXYZabcdefghijklmnopqrstuvwxyz_''"

text \<open>Modelled from the spec: a later character of an identifier, \<open>[A-Za-z0-9_]\<close>.\<close>

definition isIdentChar :: "char \<Rightarrow> bool" where
  "isIdentChar c \<longleftrightarrow> isIdentStart c \<or> isDigit c"

text \<open>
  Modelled from the spec: the length of the number \<open>[0-9]+ ('.' [0-9]+)?\<close> at the head of
  the input (part of the missing lexer). A leading dot is a token of its own.
\<close>

definition numberLen :: "string \<Rightarrow> nat" where
  "numberLen cs =
     (let n = length (takeWhile isDigit cs)
      in case drop n cs of
           c # d # rest \<Rightarrow>
             if c = CHR ''.'' \<and> isDigit d
             then n + 1 + length (takeWhile isDigit (d # rest))
             else n
         | _ \<Rightarrow> n)"

text \<open>
  Modelled from the spec: the length of the duration unit at the head of the input, one
  of \<open>u\<close>, the micro sign (two bytes in UTF-8), \<open>ms\<close>, \<open>s\<close>, \<open>m\<close>, \<open>h\<close>, \<open>d\<close>,
  \<open>w\<close>, with \<open>ms\<close> preferred to \<open>m\<close>; 0 if there is none.
\<close>

definition unitLen :: "string \<Rightarrow> nat" where
  "unitLen cs =
     (if take 2 cs = ''ms'' then 2
      else if take 2 cs = [CHR 0xC2, CHR 0xB5] then 2
      else if take 1 cs \<in> {''u'', ''s'', ''m'', ''h'', ''d'', ''w''} then 1
      else 0)"

text \<open>Modelled from the spec: the reserved words of the missing lexer.\<close>

definition keyword :: "string \<Rightarrow> TokenKind" where
  "keyword w =
     (if w = ''AND'' then TokenAnd
      else if w = ''OR'' then TokenOr
      else if w = ''TRUE'' then TokenTrue
      else if w = ''FALSE'' then TokenFalse
      else if w = ''var'' then TokenVar
      else TokenIdent)"

text \<open>
  Modelled from the spec: the end of a quoted literal of the missing lexer. \<open>closing q\<close>
  counts the characters up to and including the first \<open>q\<close> not preceded by a
  backslash.
\<close>

fun closing :: "char \<Rightarrow> bool \<Rightarrow> string \<Rightarrow> nat option" where
  "closing q esc [] = None"
| "closing q esc (c # cs) =
     (if c = q \<and> \<not> esc then Some 1
      else map_option Suc (closing q (c = CHR 0x5C) cs))"

text \<open>
  Modelled from the spec: the end of a triple-quoted string of the missing lexer, the
  first three quotes in a row not preceded by a backslash.
\<close>

fun closingTriple :: "bool \<Rightarrow> string \<Rightarrow> nat option" where
  "closingTriple esc [] = None"
| "closingTriple esc (c # cs) =
     (if \<not> esc \<and> c = CHR 0x27 \<and> take 2 cs = [CHR 0x27, CHR 0x27] then Some 3
      else map_option Suc (closingTriple (c = CHR 0x5C) cs))"

text \<open>
  Modelled from the spec: a regex is lexed only when the preceding token is \<open>=~\<close>,
  \<open>!~\<close> or \<open>=\<close>.
\<close>

definition regexContext :: "TokenKind option \<Rightarrow> bool" where
  "regexContext prev \<longleftrightarrow>
     prev = Some TokenRegexEqual \<or> prev = Some TokenRegexNotEqual \<or> prev = Some TokenAsgn"

text \<open>
  Modelled from the spec: the token of a quoted literal whose opening has \<open>n0\<close>
  characters, or the error of an unterminated one.
\<close>

definition quoted :: "TokenKind \<Rightarrow> string \<Rightarrow> nat \<Rightarrow> nat option \<Rightarrow> error + TokenKind \<times> nat" where
  "quoted k what n0 r =
     (case r of
        None \<Rightarrow> Inl (Err (''unterminated '' @ what))
      | Some n \<Rightarrow> Inr (k, n0 + n))"

text \<open>
  Modelled from the spec: the structural tokens, operators, comparisons and regex
  matches of the missing lexer, by their first character; \<open>None\<close> for any other
  character. Each result is the kind and the length of the lexeme.
\<close>

definition lexOperator ::
  "TokenKind option \<Rightarrow> char \<Rightarrow> string \<Rightarrow> (error + TokenKind \<times> nat) option" where
  "lexOperator prev c cs =
     (if c = CHR ''/'' then
        Some (if regexContext prev
              then quoted TokenRegex ''regex'' 1 (closing CHR ''/'' False cs)
              else Inr (TokenDiv, 1))
      else if c = CHR ''+'' then Some (Inr (TokenPlus, 1))
      else if c = CHR ''-'' then Some (Inr (TokenMinus, 1))
      else if c = CHR ''*'' then Some (Inr (TokenMult, 1))
      else if c = CHR ''('' then Some (Inr (TokenLParen, 1))
      else if c = CHR '')'' then Some (Inr (TokenRParen, 1))
      else if c = CHR ''.'' then Some (Inr (TokenDot, 1))
      else if c = CHR ''='' then
        Some (if take 1 cs = ''='' then Inr (TokenEqual, 2)
              else if take 1 cs = ''~'' then Inr (TokenRegexEqual, 2)
              else Inr (TokenAsgn, 1))
      else if c = CHR ''!'' then
        Some (if take 1 cs = ''='' then Inr (TokenNotEqual, 2)
              else if take 1 cs = ''~'' then Inr (TokenRegexNotEqual, 2)
              else Inr (TokenNot, 1))
      else if c = CHR ''>'' then
        Some (if take 1 cs = ''='' then Inr (TokenGreaterEqual, 2) else Inr (TokenGreater, 1))
      else if c = CHR ''<'' then
        Some (if take 1 cs = ''='' then Inr (TokenLessEqual, 2) else Inr (TokenLess, 1))
      else None)"

text \<open>
  Modelled from the spec: a number of the missing lexer, or the duration it makes with
  the unit that follows it immediately.
\<close>

definition lexNumberOrDuration :: "string \<Rightarrow> TokenKind \<times> nat" where
  "lexNumberOrDuration s =
     (let n = numberLen s; u = unitLen (drop n s)
      in if 0 < u then (TokenDuration, n + u) else (TokenNumber, n))"

text \<open>
  Modelled from the spec: an identifier of the missing lexer, or the reserved word it
  spells.
\<close>

definition lexIdentOrKeyword :: "string \<Rightarrow> TokenKind \<times> nat" where
  "lexIdentOrKeyword s =
     (let n = length (takeWhile isIdentChar s) in (keyword (take n s), n))"

text \<open>
  Modelled from the spec: a string of the missing lexer after its first quote, in the
  triple form when two more quotes follow and in the short form otherwise.
\<close>

definition lexString :: "string \<Rightarrow> error + TokenKind \<times> nat" where
  "lexString cs =
     (if take 2 cs = [CHR 0x27, CHR 0x27]
      then quoted TokenString ''string'' 3 (closingTriple False (drop 2 cs))
      else quoted TokenString ''string'' 1 (closing (CHR 0x27) False cs))"

text \<open>
  Modelled from the spec: one token of the missing lexer at the head of an input that
  starts neither with whitespace nor with a comment.
\<close>

definition lexToken :: "TokenKind option \<Rightarrow> string \<Rightarrow> error + TokenKind \<times> nat" where
  "lexToken prev s =
     (case s of
        [] \<Rightarrow> Inl (Err ''unexpected end of input'')
      | c # cs \<Rightarrow>
          (case lexOperator prev c cs of
             Some r \<Rightarrow> r
           | None \<Rightarrow>
               if isDigit c then Inr (lexNumberOrDuration s)
               else if isIdentStart c then Inr (lexIdentOrKeyword s)
               else if c = CHR 0x22 then
                 quoted TokenReference ''reference'' 1 (closing (CHR 0x22) False cs)
               else if c = CHR 0x27 then lexString cs
               else Inl (Err ''unexpected character'')))"

text \<open>
  Modelled from the spec: the length of the line comment at the head of the input, up to
  and including the next newline; 0 if there is none. After \<open>=~\<close>, \<open>!~\<close> or \<open>=\<close> a
  slash opens a regex, not a comment.
\<close>

definition commentLen :: "TokenKind option \<Rightarrow> string \<Rightarrow> nat" where
  "commentLen prev s =
     (if take 2 s = ''//'' \<and> \<not> regexContext prev
      then (let n = length (takeWhile (\<lambda>c. c \<noteq> CHR 0x0A) s)
            in if n < length s then n + 1 else n)
      else 0)"


subsection \<open>Every lexeme is a non-empty piece of the input\<close>

lemma closing_bounds: "closing q esc cs = Some n \<Longrightarrow> 0 < n \<and> n \<le> length cs"
  by (induction q esc cs arbitrary: n rule: closing.induct) (auto split: if_splits)

lemma closingTriple_bounds: "closingTriple esc cs = Some n \<Longrightarrow> 0 < n \<and> n \<le> length cs"
proof (induction esc cs arbitrary: n rule: closingTriple.induct)
  case (1 esc)
  then show ?case by simp
next
  case (2 esc c cs)
  show ?case
  proof (cases "\<not> esc \<and> c = CHR 0x27 \<and> take 2 cs = [CHR 0x27, CHR 0x27]")
    case True
    then have "length (take 2 cs) = 2" by simp
    then have "2 \<le> length cs" by (simp add: min_def split: if_splits)
    with True 2(2) show ?thesis by simp
  next
    case False
    with 2 show ?thesis by auto
  qed
qed

lemma numberLen_le: "numberLen s \<le> length s"
proof -
  let ?n = "length (takeWhile isDigit s)"
  have n: "?n \<le> length s" by (rule length_takeWhile_le)
  show ?thesis
  proof (cases "drop ?n s")
    case Nil
    with n show ?thesis by (simp add: numberLen_def)
  next
    case (Cons c r)
    show ?thesis
    proof (cases r)
      case Nil
      with Cons n show ?thesis by (simp add: numberLen_def)
    next
      case (Cons d rest)
      with \<open>drop ?n s = c # r\<close> have dr: "drop ?n s = c # d # rest" by simp
      then have "length s = ?n + Suc (length (d # rest))"
        by (metis add_diff_cancel_left' length_Cons length_drop n le_add_diff_inverse)
      moreover have "length (takeWhile isDigit (d # rest)) \<le> length (d # rest)"
        by (rule length_takeWhile_le)
      ultimately show ?thesis using dr by (auto simp: numberLen_def Let_def)
    qed
  qed
qed

lemma numberLen_pos: "isDigit c \<Longrightarrow> 0 < numberLen (c # cs)"
  by (simp add: numberLen_def Let_def split: list.splits)

lemma unitLen_le: "unitLen s \<le> length s"
proof -
  have 2: "take 2 s = [a, b] \<Longrightarrow> 2 \<le> length s" for a b
    by (cases s; cases "tl s") auto
  have 1: "take 1 s = [a] \<Longrightarrow> 1 \<le> length s" for a
    by (cases s) auto
  show ?thesis
    using 1 2 by (auto simp: unitLen_def)
qed

lemma keyword_not_EOF: "keyword w \<noteq> TokenEOF"
  by (simp add: keyword_def)

lemma quoted_bounds:
  "quoted k what n0 r = Inr (k', n) \<Longrightarrow> \<exists>m. r = Some m \<and> n = n0 + m \<and> k' = k"
  by (cases r) (auto simp: quoted_def)


lemma take1_le: "take (Suc 0) cs = [a] \<Longrightarrow> Suc 0 \<le> length cs"
  by (cases cs) auto

lemma quoted_closing_bounds:
  "quoted k what (Suc 0) (closing q False cs) = Inr (k', n) \<Longrightarrow>
     0 < n \<and> n \<le> Suc (length cs) \<and> k' = k"
  using closing_bounds[of q False cs] by (auto dest!: quoted_bounds)

lemma lexOperator_bounds:
  "lexOperator prev c cs = Some (Inr (k, n)) \<Longrightarrow> 0 < n \<and> n \<le> Suc (length cs) \<and> k \<noteq> TokenEOF"
  by (auto simp: lexOperator_def split: if_splits dest: take1_le quoted_closing_bounds)

lemma lexNumberOrDuration_bounds:
  assumes "isDigit c" "lexNumberOrDuration (c # cs) = (k, n)"
  shows "0 < n \<and> n \<le> Suc (length cs) \<and> k \<noteq> TokenEOF"
  using numberLen_pos[OF assms(1), of cs] numberLen_le[of "c # cs"]
    unitLen_le[of "drop (numberLen (c # cs)) (c # cs)"] assms(2)
  by (auto simp: lexNumberOrDuration_def Let_def split: if_splits)

lemma lexIdentOrKeyword_bounds:
  assumes "isIdentStart c" "lexIdentOrKeyword (c # cs) = (k, n)"
  shows "0 < n \<and> n \<le> Suc (length cs) \<and> k \<noteq> TokenEOF"
proof -
  have "length (takeWhile isIdentChar (c # cs)) \<le> length (c # cs)" by (rule length_takeWhile_le)
  moreover have "0 < length (takeWhile isIdentChar (c # cs))"
    using assms(1) by (simp add: isIdentChar_def)
  ultimately show ?thesis
    using assms(2) keyword_not_EOF by (auto simp: lexIdentOrKeyword_def Let_def)
qed

lemma lexString_bounds:
  assumes "lexString cs = Inr (k, n)"
  shows "0 < n \<and> n \<le> Suc (length cs) \<and> k \<noteq> TokenEOF"
proof (cases "take 2 cs = [CHR 0x27, CHR 0x27]")
  case True
  with assms have "quoted TokenString ''string'' 3 (closingTriple False (drop 2 cs)) = Inr (k, n)"
    by (simp add: lexString_def)
  from quoted_bounds[OF this] obtain m where
    m: "closingTriple False (drop 2 cs) = Some m" "n = 3 + m" "k = TokenString" by blast
  from closingTriple_bounds[OF m(1)] have "0 < m" "m \<le> length cs - 2" by simp_all
  then show ?thesis using m by simp
next
  case False
  with assms show ?thesis
    by (auto simp: lexString_def dest: quoted_closing_bounds)
qed

lemma lexToken_bounds:
  assumes "lexToken prev s = Inr (k, n)"
  shows "0 < n \<and> n \<le> length s \<and> k \<noteq> TokenEOF"
proof (cases s)
  case Nil
  with assms show ?thesis by (simp add: lexToken_def)
next
  case (Cons c cs)
  show ?thesis
  proof (cases "lexOperator prev c cs")
    case (Some r)
    with assms Cons lexOperator_bounds[of prev c cs k n] show ?thesis
      by (simp add: lexToken_def)
  next
    case None
    with assms Cons
      lexNumberOrDuration_bounds[of c cs k n] lexIdentOrKeyword_bounds[of c cs k n]
      quoted_closing_bounds[of TokenReference "''reference''" "CHR 0x22" cs k n]
      lexString_bounds[of cs k n]
    show ?thesis
      by (auto simp: lexToken_def split: if_splits)
  qed
qed


lemma commentLen_le: "commentLen prev s \<le> length s"
  using length_takeWhile_le[of "\<lambda>c. c \<noteq> CHR 0x0A" s]
  by (auto simp: commentLen_def Let_def)

text \<open>
  Modelled from the spec: the token sequence of the missing lexer for the input that
  remains at byte offset \<open>p\<close>, \<open>prev\<close> being the kind of the preceding token.
  Whitespace and comments are skipped; the end of the input gives the \<open>EOF\<close> token. A
  lexical error is \<open>Inl\<close>: the input is not well-formed.
\<close>

function lexFrom :: "nat \<Rightarrow> TokenKind option \<Rightarrow> string \<Rightarrow> error + token list" where
  "lexFrom p prev [] = Inr [Token TokenEOF p []]"
| "lexFrom p prev (c # cs) =
     (if isSpace c then lexFrom (p + 1) prev cs
      else if 0 < commentLen prev (c # cs) then
        lexFrom (p + commentLen prev (c # cs)) prev (drop (commentLen prev (c # cs)) (c # cs))
      else
        (case lexToken prev (c # cs) of
           Inl e \<Rightarrow> Inl e
         | Inr (k, n) \<Rightarrow>
             (case lexFrom (p + n) (Some k) (drop n (c # cs)) of
                Inl e \<Rightarrow> Inl e
              | Inr ts \<Rightarrow> Inr (Token k p (take n (c # cs)) # ts))))"
  by pat_completeness auto
termination
proof (relation "measure (\<lambda>(p, prev, s). length s)")
  show "wf (measure (\<lambda>(p, prev, s). length s))" by simp
next
  fix p :: nat and prev :: "TokenKind option" and c cs
  show "((p + 1, prev, cs), p, prev, c # cs) \<in> measure (\<lambda>(p, prev, s). length s)" by simp
next
  fix p :: nat and prev :: "TokenKind option" and c cs
  assume "0 < commentLen prev (c # cs)"
  then show "((p + commentLen prev (c # cs), prev, drop (commentLen prev (c # cs)) (c # cs)),
              p, prev, c # cs) \<in> measure (\<lambda>(p, prev, s). length s)"
    by simp
next
  fix p :: nat and prev :: "TokenKind option" and c cs x2 k n
  assume "lexToken prev (c # cs) = Inr x2" "(k, n) = x2"
  then have "lexToken prev (c # cs) = Inr (k, n)" by simp
  from lexToken_bounds[OF this] 
  show "((p + n, Some k, drop n (c # cs)), p, prev, c # cs) \<in> measure (\<lambda>(p, prev, s). length s)"
    by simp
qed

text \<open>Modelled from the spec: \<open>lex(input)\<close>, the tokens of a source string.\<close>

definition lexInput :: "string \<Rightarrow> error + token list" where
  "lexInput src = lexFrom 0 None src"


lemma lexFrom_tokens:
  "lexFrom p prev s = Inr toks \<Longrightarrow>
   \<exists>ts. toks = ts @ [Token TokenEOF (p + length s) []] \<and>
        (\<forall>t\<in>set ts. tokKind t \<noteq> TokenEOF \<and> tokLit t \<noteq> [] \<and> p \<le> tokPos t \<and>
                    take (length (tokLit t)) (drop (tokPos t - p) s) = tokLit t)"
proof (induction p prev s arbitrary: toks rule: lexFrom.induct)
  case (1 p prev)
  then show ?case by simp
next
  case (2 p prev c cs)
  let ?s = "c # cs"
  show ?case
  proof (cases "isSpace c")
    case True
    with "2.prems" have "lexFrom (p + 1) prev cs = Inr toks" by simp
    from "2.IH"(1)[OF True this] obtain ts where
      ts: "toks = ts @ [Token TokenEOF (p + 1 + length cs) []]"
      "\<forall>t\<in>set ts. tokKind t \<noteq> TokenEOF \<and> tokLit t \<noteq> [] \<and> p + 1 \<le> tokPos t \<and>
                    take (length (tokLit t)) (drop (tokPos t - (p + 1)) cs) = tokLit t"
      by blast
    have "tokKind t \<noteq> TokenEOF \<and> tokLit t \<noteq> [] \<and> p \<le> tokPos t \<and>
          take (length (tokLit t)) (drop (tokPos t - p) ?s) = tokLit t" if "t \<in> set ts" for t
    proof -
      from ts(2) that have t: "tokKind t \<noteq> TokenEOF" "tokLit t \<noteq> []" "p + 1 \<le> tokPos t"
        "take (length (tokLit t)) (drop (tokPos t - (p + 1)) cs) = tokLit t" by auto
      from t(3) have "tokPos t - p = Suc (tokPos t - (p + 1))" by simp
      with t show ?thesis by simp
    qed
    with ts(1) show ?thesis by auto
  next
    case False
    note nsp = this
    show ?thesis
    proof (cases "0 < commentLen prev ?s")
      case True
      let ?n = "commentLen prev ?s"
      have n: "?n \<le> length ?s" by (rule commentLen_le)
      from "2.prems" nsp True have "lexFrom (p + ?n) prev (drop ?n ?s) = Inr toks" by simp
      from "2.IH"(2)[OF nsp True this] obtain ts where
        ts: "toks = ts @ [Token TokenEOF (p + ?n + length (drop ?n ?s)) []]"
        "\<forall>t\<in>set ts. tokKind t \<noteq> TokenEOF \<and> tokLit t \<noteq> [] \<and> p + ?n \<le> tokPos t \<and>
                    take (length (tokLit t)) (drop (tokPos t - (p + ?n)) (drop ?n ?s)) = tokLit t"
        by blast
      have e: "p + ?n + length (drop ?n ?s) = p + length ?s" using n by simp
      have "tokKind t \<noteq> TokenEOF \<and> tokLit t \<noteq> [] \<and> p \<le> tokPos t \<and>
          take (length (tokLit t)) (drop (tokPos t - p) ?s) = tokLit t" if "t \<in> set ts" for t
      proof -
        from ts(2) that have t: "tokKind t \<noteq> TokenEOF" "tokLit t \<noteq> []" "p + ?n \<le> tokPos t"
          "take (length (tokLit t)) (drop (tokPos t - (p + ?n)) (drop ?n ?s)) = tokLit t" by auto
        from t(3) have "tokPos t - (p + ?n) + ?n = tokPos t - p" by simp
        with t(4) have "take (length (tokLit t)) (drop (tokPos t - p) ?s) = tokLit t"
          by (simp only: drop_drop)
        with t show ?thesis by simp
      qed
      with ts(1) e show ?thesis by auto
    next
      case False
      note ncm = this
      from "2.prems" nsp ncm obtain k n toks' where
        lt: "lexToken prev ?s = Inr (k, n)" and
        rest: "lexFrom (p + n) (Some k) (drop n ?s) = Inr toks'" and
        toks: "toks = Token k p (take n ?s) # toks'"
        by (auto split: sum.splits prod.splits)
      from lexToken_bounds[OF lt] have n: "0 < n" "n \<le> length ?s" and k: "k \<noteq> TokenEOF"
        by simp_all
      from "2.IH"(3)[OF nsp ncm lt refl rest] obtain ts where
        ts: "toks' = ts @ [Token TokenEOF (p + n + length (drop n ?s)) []]"
        "\<forall>t\<in>set ts. tokKind t \<noteq> TokenEOF \<and> tokLit t \<noteq> [] \<and> p + n \<le> tokPos t \<and>
                    take (length (tokLit t)) (drop (tokPos t - (p + n)) (drop n ?s)) = tokLit t"
        by blast
      have e: "p + n + length (drop n ?s) = p + length ?s" using n by simp
      have old: "tokKind t \<noteq> TokenEOF \<and> tokLit t \<noteq> [] \<and> p \<le> tokPos t \<and>
          take (length (tokLit t)) (drop (tokPos t - p) ?s) = tokLit t" if "t \<in> set ts" for t
      proof -
        from ts(2) that have t: "tokKind t \<noteq> TokenEOF" "tokLit t \<noteq> []" "p + n \<le> tokPos t"
          "take (length (tokLit t)) (drop (tokPos t - (p + n)) (drop n ?s)) = tokLit t" by auto
        from t(3) have "tokPos t - (p + n) + n = tokPos t - p" by simp
        with t(4) have "take (length (tokLit t)) (drop (tokPos t - p) ?s) = tokLit t"
          by (simp only: drop_drop)
        with t show ?thesis by simp
      qed
      have new: "tokKind (Token k p (take n ?s)) \<noteq> TokenEOF \<and> tokLit (Token k p (take n ?s)) \<noteq> [] \<and>
          p \<le> tokPos (Token k p (take n ?s)) \<and>
          take (length (tokLit (Token k p (take n ?s)))) (drop (tokPos (Token k p (take n ?s)) - p) ?s)
            = tokLit (Token k p (take n ?s))"
        using n k by (simp add: min_def)
      have "toks = (Token k p (take n ?s) # ts) @ [Token TokenEOF (p + length ?s) []]"
        using toks ts(1) e by simp
      moreover have "\<forall>t\<in>set (Token k p (take n ?s) # ts).
          tokKind t \<noteq> TokenEOF \<and> tokLit t \<noteq> [] \<and> p \<le> tokPos t \<and>
          take (length (tokLit t)) (drop (tokPos t - p) ?s) = tokLit t"
        using old new by (simp del: take_Suc_Cons)
      ultimately show ?thesis by blast
    qed
  qed
qed

text \<open>
  Claim C9. For every well-formed source string, that is one the lexer accepts, the token
  sequence ends in an \<open>EOF\<close> token whose position is the length of the source, no
  other token is an \<open>EOF\<close>, and every other token has a non-empty literal that stands
  in the source at the token's position (its position is the byte offset of its first
  character).
\<close>

theorem lexInput_single_EOF_at_length:
  assumes "lexInput src = Inr toks"
  shows "\<exists>ts. toks = ts @ [Token TokenEOF (length src) []] \<and>
     (\<forall>t\<in>set ts. tokKind t \<noteq> TokenEOF \<and> tokLit t \<noteq> [] \<and>
        take (length (tokLit t)) (drop (tokPos t) src) = tokLit t)"
  using lexFrom_tokens[of 0 None src toks] assms by (simp add: lexInput_def)

subsection \<open>The cases of TestLexer\<close>

lemma TestLexer_01:
  "lexInput (''!'') =
     Inr [Token TokenNot 0 (''!''),
        Token TokenEOF 1 []]"
  by code_simp

lemma TestLexer_02:
  "lexInput (''+'') =
     Inr [Token TokenPlus 0 (''+''),
        Token TokenEOF 1 []]"
  by code_simp

lemma TestLexer_03:
  "lexInput (''-'') =
     Inr [Token TokenMinus 0 (''-''),
        Token TokenEOF 1 []]"
  by code_simp

lemma TestLexer_04:
  "lexInput (''*'') =
     Inr [Token TokenMult 0 (''*''),
        Token TokenEOF 1 []]"
  by code_simp

lemma TestLexer_05:
  "lexInput (''/'') =
     Inr [Token TokenDiv 0 (''/''),
        Token TokenEOF 1 []]"
  by code_simp

lemma TestLexer_06:
  "lexInput (''='') =
     Inr [Token TokenAsgn 0 (''=''),
        Token TokenEOF 1 []]"
  by code_simp

lemma TestLexer_07:
  "lexInput (''=='') =
     Inr [Token TokenEqual 0 (''==''),
        Token TokenEOF 2 []]"
  by code_simp

lemma TestLexer_08:
  "lexInput (''!='') =
     Inr [Token TokenNotEqual 0 (''!=''),
        Token TokenEOF 2 []]"
  by code_simp

lemma TestLexer_09:
  "lexInput (''>'') =
     Inr [Token TokenGreater 0 (''>''),
        Token TokenEOF 1 []]"
  by code_simp

lemma TestLexer_10:
  "lexInput (''>='') =
     Inr [Token TokenGreaterEqual 0 (''>=''),
        Token TokenEOF 2 []]"
  by code_simp

lemma TestLexer_11:
  "lexInput (''<'') =
     Inr [Token TokenLess 0 (''<''),
        Token TokenEOF 1 []]"
  by code_simp

lemma TestLexer_12:
  "lexInput (''<='') =
     Inr [Token TokenLessEqual 0 (''<=''),
        Token TokenEOF 2 []]"
  by code_simp

lemma TestLexer_13:
  "lexInput (''=~'') =
     Inr [Token TokenRegexEqual 0 (''=~''),
        Token TokenEOF 2 []]"
  by code_simp

lemma TestLexer_14:
  "lexInput (''!~'') =
     Inr [Token TokenRegexNotEqual 0 (''!~''),
        Token TokenEOF 2 []]"
  by code_simp

lemma TestLexer_15:
  "lexInput (''('') =
     Inr [Token TokenLParen 0 (''(''),
        Token TokenEOF 1 []]"
  by code_simp

lemma TestLexer_16:
  "lexInput ('')'') =
     Inr [Token TokenRParen 0 ('')''),
        Token TokenEOF 1 []]"
  by code_simp

lemma TestLexer_17:
  "lexInput (''.'') =
     Inr [Token TokenDot 0 (''.''),
        Token TokenEOF 1 []]"
  by code_simp

lemma TestLexer_18:
  "lexInput (''AND'') =
     Inr [Token TokenAnd 0 (''AND''),
        Token TokenEOF 3 []]"
  by code_simp

lemma TestLexer_19:
  "lexInput (''OR'') =
     Inr [Token TokenOr 0 (''OR''),
        Token TokenEOF 2 []]"
  by code_simp

lemma TestLexer_20:
  "lexInput (''TRUE'') =
     Inr [Token TokenTrue 0 (''TRUE''),
        Token TokenEOF 4 []]"
  by code_simp

lemma TestLexer_21:
  "lexInput (''FALSE'') =
     Inr [Token TokenFalse 0 (''FALSE''),
        Token TokenEOF 5 []]"
  by code_simp

lemma TestLexer_22:
  "lexInput (''var'') =
     Inr [Token TokenVar 0 (''var''),
        Token TokenEOF 3 []]"
  by code_simp

lemma TestLexer_23:
  "lexInput (''42'') =
     Inr [Token TokenNumber 0 (''42''),
        Token TokenEOF 2 []]"
  by code_simp

lemma TestLexer_24:
  "lexInput (''42.21'') =
     Inr [Token TokenNumber 0 (''42.21''),
        Token TokenEOF 5 []]"
  by code_simp

lemma TestLexer_25:
  "lexInput (''.421'') =
     Inr [Token TokenDot 0 (''.''),
        Token TokenNumber 1 (''421''),
        Token TokenEOF 4 []]"
  by code_simp

lemma TestLexer_26:
  "lexInput (''0.421'') =
     Inr [Token TokenNumber 0 (''0.421''),
        Token TokenEOF 5 []]"
  by code_simp

lemma TestLexer_27:
  "lexInput (''42s'') =
     Inr [Token TokenDuration 0 (''42s''),
        Token TokenEOF 3 []]"
  by code_simp

lemma TestLexer_28:
  "lexInput (''42.21m'') =
     Inr [Token TokenDuration 0 (''42.21m''),
        Token TokenEOF 6 []]"
  by code_simp

lemma TestLexer_29:
  "lexInput (''.421h'') =
     Inr [Token TokenDot 0 (''.''),
        Token TokenDuration 1 (''421h''),
        Token TokenEOF 5 []]"
  by code_simp

lemma TestLexer_30:
  "lexInput (''0.421s'') =
     Inr [Token TokenDuration 0 (''0.421s''),
        Token TokenEOF 6 []]"
  by code_simp

lemma TestLexer_31:
  "lexInput (''1u'') =
     Inr [Token TokenDuration 0 (''1u''),
        Token TokenEOF 2 []]"
  by code_simp

lemma TestLexer_32:
  "lexInput (''1'' @ [CHR 0xC2, CHR 0xB5]) =
     Inr [Token TokenDuration 0 (''1'' @ [CHR 0xC2, CHR 0xB5]),
        Token TokenEOF 3 []]"
  by code_simp

lemma TestLexer_33:
  "lexInput (''1ms'') =
     Inr [Token TokenDuration 0 (''1ms''),
        Token TokenEOF 3 []]"
  by code_simp

lemma TestLexer_34:
  "lexInput (''1h'') =
     Inr [Token TokenDuration 0 (''1h''),
        Token TokenEOF 2 []]"
  by code_simp

lemma TestLexer_35:
  "lexInput (''1d'') =
     Inr [Token TokenDuration 0 (''1d''),
        Token TokenEOF 2 []]"
  by code_simp

lemma TestLexer_36:
  "lexInput (''1w'') =
     Inr [Token TokenDuration 0 (''1w''),
        Token TokenEOF 2 []]"
  by code_simp

lemma TestLexer_37:
  "lexInput (''variable'') =
     Inr [Token TokenIdent 0 (''variable''),
        Token TokenEOF 8 []]"
  by code_simp

lemma TestLexer_38:
  "lexInput (''myVar01'') =
     Inr [Token TokenIdent 0 (''myVar01''),
        Token TokenEOF 7 []]"
  by code_simp

lemma TestLexer_39:
  "lexInput ([CHR 0x22, CHR 0x22]) =
     Inr [Token TokenReference 0 ([CHR 0x22, CHR 0x22]),
        Token TokenEOF 2 []]"
  by code_simp

lemma TestLexer_40:
  "lexInput ([CHR 0x22] @ ''ref with spaces'' @ [CHR 0x22]) =
     Inr [Token TokenReference 0 ([CHR 0x22] @ ''ref with spaces'' @ [CHR 0x22]),
        Token TokenEOF 17 []]"
  by code_simp

lemma TestLexer_41:
  "lexInput ([CHR 0x22] @ ''ref'' @ [CHR 0x5C, CHR 0x22, CHR 0x22]) =
     Inr [Token TokenReference 0 ([CHR 0x22] @ ''ref'' @ [CHR 0x5C, CHR 0x22, CHR 0x22]),
        Token TokenEOF 7 []]"
  by code_simp

lemma TestLexer_42:
  "lexInput ([CHR 0x27, CHR 0x27]) =
     Inr [Token TokenString 0 ([CHR 0x27, CHR 0x27]),
        Token TokenEOF 2 []]"
  by code_simp

lemma TestLexer_43:
  "lexInput ([CHR 0x27, CHR 0x27, CHR 0x27, CHR 0x27, CHR 0x27, CHR 0x27]) =
     Inr [Token TokenString 0 ([CHR 0x27, CHR 0x27, CHR 0x27, CHR 0x27, CHR 0x27, CHR 0x27]),
        Token TokenEOF 6 []]"
  by code_simp

lemma TestLexer_44:
  "lexInput ([CHR 0x27] @ ''str'' @ [CHR 0x27]) =
     Inr [Token TokenString 0 ([CHR 0x27] @ ''str'' @ [CHR 0x27]),
        Token TokenEOF 5 []]"
  by code_simp

lemma TestLexer_45:
  "lexInput ([CHR 0x27] @ ''str'' @ [CHR 0x5C, CHR 0x27, CHR 0x27]) =
     Inr [Token TokenString 0 ([CHR 0x27] @ ''str'' @ [CHR 0x5C, CHR 0x27, CHR 0x27]),
        Token TokenEOF 7 []]"
  by code_simp

lemma TestLexer_46:
  "lexInput ([CHR 0x27, CHR 0x27, CHR 0x27] @ ''s'' @ [CHR 0x27] @ ''tr'' @ [CHR 0x27, CHR 0x27, CHR 0x27]) =
     Inr [Token TokenString 0 ([CHR 0x27, CHR 0x27, CHR 0x27] @ ''s'' @ [CHR 0x27] @ ''tr'' @ [CHR 0x27, CHR 0x27, CHR 0x27]),
        Token TokenEOF 10 []]"
  by code_simp

lemma TestLexer_47:
  "lexInput ([CHR 0x27, CHR 0x27, CHR 0x27] @ ''s'' @ [CHR 0x5C, CHR 0x27] @ ''tr'' @ [CHR 0x27, CHR 0x27, CHR 0x27]) =
     Inr [Token TokenString 0 ([CHR 0x27, CHR 0x27, CHR 0x27] @ ''s'' @ [CHR 0x5C, CHR 0x27] @ ''tr'' @ [CHR 0x27, CHR 0x27, CHR 0x27]),
        Token TokenEOF 11 []]"
  by code_simp

lemma TestLexer_48:
  "lexInput ([CHR 0x27, CHR 0x27, CHR 0x27] @ ''str'' @ [CHR 0x27, CHR 0x27, CHR 0x27]) =
     Inr [Token TokenString 0 ([CHR 0x27, CHR 0x27, CHR 0x27] @ ''str'' @ [CHR 0x27, CHR 0x27, CHR 0x27]),
        Token TokenEOF 9 []]"
  by code_simp

lemma TestLexer_49:
  "lexInput (''=~ //'') =
     Inr [Token TokenRegexEqual 0 (''=~''),
        Token TokenRegex 3 (''//''),
        Token TokenEOF 5 []]"
  by code_simp

lemma TestLexer_50:
  "lexInput (''!~ //'') =
     Inr [Token TokenRegexNotEqual 0 (''!~''),
        Token TokenRegex 3 (''//''),
        Token TokenEOF 5 []]"
  by code_simp

lemma TestLexer_51:
  "lexInput (''= //'') =
     Inr [Token TokenAsgn 0 (''=''),
        Token TokenRegex 2 (''//''),
        Token TokenEOF 4 []]"
  by code_simp

lemma TestLexer_52:
  "lexInput (''= /^((.*)[a-z]+'' @ [CHR 0x5C] @ ''S{0,2})|cat'' @ [CHR 0x5C] @ ''/'' @ [CHR 0x5C] @ ''/$/'') =
     Inr [Token TokenAsgn 0 (''=''),
        Token TokenRegex 2 (''/^((.*)[a-z]+'' @ [CHR 0x5C] @ ''S{0,2})|cat'' @ [CHR 0x5C] @ ''/'' @ [CHR 0x5C] @ ''/$/''),
        Token TokenEOF 33 []]"
  by code_simp

lemma TestLexer_53:
  "lexInput ('' '') =
     Inr [Token TokenEOF 1 []]"
  by code_simp

lemma TestLexer_54:
  "lexInput ('' '' @ [CHR 0x09, CHR 0x0A]) =
     Inr [Token TokenEOF 3 []]"
  by code_simp

lemma TestLexer_55:
  "lexInput (''var x = avg()'') =
     Inr [Token TokenVar 0 (''var''),
        Token TokenIdent 4 (''x''),
        Token TokenAsgn 6 (''=''),
        Token TokenIdent 8 (''avg''),
        Token TokenLParen 11 (''(''),
        Token TokenRParen 12 ('')''),
        Token TokenEOF 13 []]"
  by code_simp

lemma TestLexer_56:
  "lexInput (''var x = avg().parallel(4)x.groupby('' @ [CHR 0x27] @ ''cpu'' @ [CHR 0x27] @ '').window().period(10s)'') =
     Inr [Token TokenVar 0 (''var''),
        Token TokenIdent 4 (''x''),
        Token TokenAsgn 6 (''=''),
        Token TokenIdent 8 (''avg''),
        Token TokenLParen 11 (''(''),
        Token TokenRParen 12 ('')''),
        Token TokenDot 13 (''.''),
        Token TokenIdent 14 (''parallel''),
        Token TokenLParen 22 (''(''),
        Token TokenNumber 23 (''4''),
        Token TokenRParen 24 ('')''),
        Token TokenIdent 25 (''x''),
        Token TokenDot 26 (''.''),
        Token TokenIdent 27 (''groupby''),
        Token TokenLParen 34 (''(''),
        Token TokenString 35 ([CHR 0x27] @ ''cpu'' @ [CHR 0x27]),
        Token TokenRParen 40 ('')''),
        Token TokenDot 41 (''.''),
        Token TokenIdent 42 (''window''),
        Token TokenLParen 48 (''(''),
        Token TokenRParen 49 ('')''),
        Token TokenDot 50 (''.''),
        Token TokenIdent 51 (''period''),
        Token TokenLParen 57 (''(''),
        Token TokenDuration 58 (''10s''),
        Token TokenRParen 61 ('')''),
        Token TokenEOF 62 []]"
  by code_simp

lemma TestLexer_57:
  "lexInput (''var x = avg()'' @ [CHR 0x0A] @ ''// Comment all of this is ignored'' @ [CHR 0x0A] @ ''x.groupby('' @ [CHR 0x27] @ ''cpu'' @ [CHR 0x27] @ '')'') =
     Inr [Token TokenVar 0 (''var''),
        Token TokenIdent 4 (''x''),
        Token TokenAsgn 6 (''=''),
        Token TokenIdent 8 (''avg''),
        Token TokenLParen 11 (''(''),
        Token TokenRParen 12 ('')''),
        Token TokenIdent 48 (''x''),
        Token TokenDot 49 (''.''),
        Token TokenIdent 50 (''groupby''),
        Token TokenLParen 57 (''(''),
        Token TokenString 58 ([CHR 0x27] @ ''cpu'' @ [CHR 0x27]),
        Token TokenRParen 63 ('')''),
        Token TokenEOF 64 []]"
  by code_simp

lemma TestLexer_58:
  "lexInput (''var x = avg()'' @ [CHR 0x0A] @ ''// Comment all of this is ignored'') =
     Inr [Token TokenVar 0 (''var''),
        Token TokenIdent 4 (''x''),
        Token TokenAsgn 6 (''=''),
        Token TokenIdent 8 (''avg''),
        Token TokenLParen 11 (''(''),
        Token TokenRParen 12 ('')''),
        Token TokenEOF 47 []]"
  by code_simp

text \<open>Witness for C9: the first seed scenario of the design, \<open>var x = avg()\<close>.\<close>

theorem lexInput_single_EOF_at_length_witness:
  "lexInput ''var x = avg()'' =
     Inr [Token TokenVar 0 ''var'', Token TokenIdent 4 ''x'', Token TokenAsgn 6 ''='',
          Token TokenIdent 8 ''avg'', Token TokenLParen 11 ''('', Token TokenRParen 12 '')'',
          Token TokenEOF 13 []] \<and>
   (\<exists>ts. [Token TokenVar 0 ''var'', Token TokenIdent 4 ''x'', Token TokenAsgn 6 ''='',
          Token TokenIdent 8 ''avg'', Token TokenLParen 11 ''('', Token TokenRParen 12 '')'',
          Token TokenEOF 13 []] = ts @ [Token TokenEOF 13 []] \<and>
     (\<forall>t\<in>set ts. tokKind t \<noteq> TokenEOF \<and> tokLit t \<noteq> [] \<and>
        take (length (tokLit t)) (drop (tokPos t) ''var x = avg()'') = tokLit t))"
proof -
  have l: "lexInput ''var x = avg()'' =
     Inr [Token TokenVar 0 ''var'', Token TokenIdent 4 ''x'', Token TokenAsgn 6 ''='',
          Token TokenIdent 8 ''avg'', Token TokenLParen 11 ''('', Token TokenRParen 12 '')'',
          Token TokenEOF 13 []]"
    by code_simp
  from lexInput_single_EOF_at_length[OF l] l show ?thesis by simp
qed

end
